theory Spec2Isabelle
  imports Complex_Main "HOL-Library.Log_Nat"
begin

section \<open>JavaScript numbers\<close>

text \<open>
  Every \<^verbatim>\<open>number\<close> of the library is an IEEE 754 binary64 value. A finite one is
  modelled by the rational it denotes, and every arithmetic operator rounds its exact
  result to the nearest binary64 value, ties to even (\<open>fl\<close>). The rounding covers the
  normal range (magnitudes from \<open>2^-1022\<close> up to \<open>2^1024\<close>); overflow to an infinity and
  subnormal results are outside the model, and \<open>-0\<close> is not told apart from \<open>0\<close>.

  \<open>ilog2 q\<close> is the binary exponent of \<open>q \<noteq> 0\<close>: \<open>2^(ilog2 q) \<le> \<bar>q\<bar> < 2^(ilog2 q + 1)\<close>.
\<close>

definition pow2 :: "int \<Rightarrow> rat" where
  "pow2 k = (if 0 \<le> k then 2 ^ nat k else 1 / 2 ^ nat (- k))"

definition ilog2 :: "rat \<Rightarrow> int" where
  "ilog2 q = (case quotient_of \<bar>q\<bar> of (a, b) \<Rightarrow>
      (let k = bitlen a - bitlen b in if pow2 k \<le> \<bar>q\<bar> then k else k - 1))"

definition roundHalfEven :: "rat \<Rightarrow> int" where
  "roundHalfEven x = (let f = \<lfloor>x\<rfloor>; d = x - of_int f in
      if d < 1 / 2 then f else if 1 / 2 < d then f + 1 else if even f then f else f + 1)"

definition fl :: "rat \<Rightarrow> rat" where
  "fl q = (if q = 0 then 0 else
      (let u = pow2 (ilog2 q - 52) in of_int (roundHalfEven (q / u)) * u))"

definition js_add :: "rat \<Rightarrow> rat \<Rightarrow> rat" where
  "js_add a b = fl (a + b)"

definition js_sub :: "rat \<Rightarrow> rat \<Rightarrow> rat" where
  "js_sub a b = fl (a - b)"

definition js_mul :: "rat \<Rightarrow> rat \<Rightarrow> rat" where
  "js_mul a b = fl (a * b)"

text \<open>\<open>a / b\<close> for \<open>b \<noteq> 0\<close>; every caller that can meet a zero divisor tests for it first.\<close>

definition js_div :: "rat \<Rightarrow> rat \<Rightarrow> rat" where
  "js_div a b = fl (a / b)"

text \<open>\<^verbatim>\<open>Math.round\<close>: the nearest integer, a tie going towards \<open>+\<infinity>\<close>.\<close>

definition js_round :: "rat \<Rightarrow> int" where
  "js_round x = \<lfloor>x + 1 / 2\<rfloor>"

text \<open>\<^verbatim>\<open>xs.reduce((acc, x) => acc + x, 0)\<close>\<close>

definition js_sum :: "rat list \<Rightarrow> rat" where
  "js_sum xs = foldl js_add 0 xs"

text \<open>
  A number that may also be \<^verbatim>\<open>NaN\<close>. Reading a property that an object does not have
  gives \<^verbatim>\<open>undefined\<close>, which \<^verbatim>\<open>+=\<close> converts to \<^verbatim>\<open>NaN\<close>; \<^verbatim>\<open>NaN\<close> absorbs every
  addition.
\<close>

datatype jsnum = Num rat | NaN

fun js_plus :: "jsnum \<Rightarrow> jsnum \<Rightarrow> jsnum" where
  "js_plus (Num a) (Num b) = Num (js_add a b)"
| "js_plus _ _ = NaN"

definition js_total :: "jsnum list \<Rightarrow> jsnum" where
  "js_total xs = foldl js_plus (Num 0) xs"

section \<open>types.ts\<close>

datatype PollingRate = Standard | High | Unknown

datatype Priority = UserVisible | Background

record AccumulatedDeltas =
  deltaX :: jsnum
  deltaY :: jsnum
  deltaZ :: jsnum

definition zeroDeltas :: AccumulatedDeltas where
  "zeroDeltas = \<lparr>deltaX = Num 0, deltaY = Num 0, deltaZ = Num 0\<rparr>"

section \<open>SamplingBuffer\<close>

text \<open>
  A DOM event: its \<^verbatim>\<open>type\<close>, the three delta properties as \<^verbatim>\<open>+=\<close> reads them (a
  number for a \<^verbatim>\<open>WheelEvent\<close>, \<open>NaN\<close> for an event without the property, such as a plain
  \<^verbatim>\<open>scroll\<close> event), and the rest of the object, which the buffer never inspects.
\<close>

record event =
  etype :: string
  evDeltaX :: jsnum
  evDeltaY :: jsnum
  evDeltaZ :: jsnum
  payload :: nat

text \<open>The fields of the class; \<open>flushCallback\<close> is the log \<open>flushCalls\<close> of the host.\<close>

record SamplingBuffer =
  latestEvent :: "event option"
  accumulatedDeltas :: AccumulatedDeltas
  rafId :: "nat option"
  shouldAccumulateDeltas :: bool
  isActive :: bool

text \<open>
  The host: \<^verbatim>\<open>requestAnimationFrame\<close> hands out fresh handles and queues the callback
  for the next refresh, \<^verbatim>\<open>cancelAnimationFrame\<close> removes a handle from the queue. Every
  callback the buffer registers is \<^verbatim>\<open>() => this.flush()\<close>, so a queue entry is just its
  handle. \<open>flushCalls\<close> records each invocation of the delivery callback with its two
  arguments (\<open>None\<close> for \<^verbatim>\<open>undefined\<close>); the callback is taken not to call back into the
  buffer and not to throw.
\<close>

record host =
  rafNext :: nat
  rafQueue :: "nat list"
  flushCalls :: "(event \<times> AccumulatedDeltas option) list"

type_synonym world = "SamplingBuffer \<times> host"

definition requestAnimationFrame :: "host \<Rightarrow> nat \<times> host" where
  "requestAnimationFrame h =
     (rafNext h, h\<lparr>rafNext := rafNext h + 1, rafQueue := rafQueue h @ [rafNext h]\<rparr>)"

definition cancelAnimationFrame :: "nat \<Rightarrow> host \<Rightarrow> host" where
  "cancelAnimationFrame i h = h\<lparr>rafQueue := removeAll i (rafQueue h)\<rparr>"

definition newSamplingBuffer :: "bool \<Rightarrow> world" where
  "newSamplingBuffer accumulateDeltas =
     (\<lparr>latestEvent = None, accumulatedDeltas = zeroDeltas, rafId = None,
       shouldAccumulateDeltas = accumulateDeltas, isActive = True\<rparr>,
      \<lparr>rafNext = 1, rafQueue = [], flushCalls = []\<rparr>)"

definition isScrollEvent :: "event \<Rightarrow> bool" where
  "isScrollEvent e = (etype e = ''wheel'' \<or> etype e = ''scroll'')"

definition addDeltas :: "AccumulatedDeltas \<Rightarrow> event \<Rightarrow> AccumulatedDeltas" where
  "addDeltas a e = \<lparr>deltaX = js_plus (deltaX a) (evDeltaX e),
                    deltaY = js_plus (deltaY a) (evDeltaY e),
                    deltaZ = js_plus (deltaZ a) (evDeltaZ e)\<rparr>"

fun buffer :: "event \<Rightarrow> world \<Rightarrow> world" where
  "buffer e (b, h) =
     (if \<not> isActive b then (b, h)
      else
        let b1 = b\<lparr>latestEvent := Some e\<rparr>;
            b2 = (if shouldAccumulateDeltas b1 \<and> isScrollEvent e
                  then b1\<lparr>accumulatedDeltas := addDeltas (accumulatedDeltas b1) e\<rparr>
                  else b1)
        in if rafId b2 = None
           then (case requestAnimationFrame h of (i, h') \<Rightarrow> (b2\<lparr>rafId := Some i\<rparr>, h'))
           else (b2, h))"

fun destroy :: "world \<Rightarrow> world" where
  "destroy (b, h) =
     (let b1 = b\<lparr>isActive := False\<rparr>;
          (b2, h2) = (case rafId b1 of
                        Some i \<Rightarrow> (b1\<lparr>rafId := None\<rparr>, cancelAnimationFrame i h)
                      | None \<Rightarrow> (b1, h))
      in (b2\<lparr>latestEvent := None, accumulatedDeltas := zeroDeltas\<rparr>, h2))"

fun flush :: "world \<Rightarrow> world" where
  "flush (b, h) =
     (case latestEvent b of
        Some e \<Rightarrow>
          (let deltas = (if shouldAccumulateDeltas b \<and> isScrollEvent e
                         then Some (accumulatedDeltas b) else None)
           in (b\<lparr>latestEvent := None, accumulatedDeltas := zeroDeltas, rafId := None\<rparr>,
               h\<lparr>flushCalls := flushCalls h @ [(e, deltas)]\<rparr>))
      | None \<Rightarrow> (b\<lparr>rafId := None\<rparr>, h))"

text \<open>
  One display refresh: the host takes the handles queued so far and, for each one that
  has not been cancelled in the meantime, removes it and runs its callback.
\<close>

definition runCallback :: "world \<Rightarrow> nat \<Rightarrow> world" where
  "runCallback w i =
     (case w of (b, h) \<Rightarrow>
        if i \<in> set (rafQueue h) then flush (b, cancelAnimationFrame i h) else (b, h))"

definition refresh :: "world \<Rightarrow> world" where
  "refresh w = foldl runCallback w (rafQueue (snd w))"

text \<open>What can happen to a buffer, and a history of it.\<close>

datatype bufferOp = Submit event | Destroy | Refresh

fun applyOp :: "world \<Rightarrow> bufferOp \<Rightarrow> world" where
  "applyOp w (Submit e) = buffer e w"
| "applyOp w Destroy = destroy w"
| "applyOp w Refresh = refresh w"

definition history :: "bufferOp list \<Rightarrow> bool \<Rightarrow> world" where
  "history ops accumulateDeltas = foldl applyOp (newSamplingBuffer accumulateDeltas) ops"

definition submitAll :: "event list \<Rightarrow> world \<Rightarrow> world" where
  "submitAll es w = foldl (\<lambda>w e. buffer e w) w es"

text \<open>The state every history keeps.\<close>

definition consistent :: "world \<Rightarrow> bool" where
  "consistent w =
     (case w of (b, h) \<Rightarrow>
        rafQueue h = (case rafId b of None \<Rightarrow> [] | Some i \<Rightarrow> [i])
        \<and> (rafId b = None) = (latestEvent b = None)
        \<and> (latestEvent b = None \<longrightarrow> accumulatedDeltas b = zeroDeltas)
        \<and> (\<not> isActive b \<longrightarrow> rafId b = None))"

text \<open>The effect of one submission on the running sum, given the accumulation flag.\<close>

definition accumulate :: "bool \<Rightarrow> AccumulatedDeltas \<Rightarrow> event \<Rightarrow> AccumulatedDeltas" where
  "accumulate a d e = (if a \<and> isScrollEvent e then addDeltas d e else d)"

text \<open>
  The component-wise sum of the deltas of a sequence of events, added from left to right
  starting from zero as the buffer does.
\<close>

definition totalDeltas :: "event list \<Rightarrow> AccumulatedDeltas" where
  "totalDeltas es = \<lparr>deltaX = js_total (map evDeltaX es), deltaY = js_total (map evDeltaY es),
                      deltaZ = js_total (map evDeltaZ es)\<rparr>"

text \<open>A value a JavaScript number can hold: a rational that rounding leaves as it is, or \<open>NaN\<close>.\<close>

fun isDouble :: "jsnum \<Rightarrow> bool" where
  "isDouble (Num q) = (fl q = q)"
| "isDouble NaN = True"

text \<open>The state at the start of a refresh interval, right after a refresh.\<close>

abbreviation intervalStart :: "bufferOp list \<Rightarrow> bool \<Rightarrow> world" where
  "intervalStart ops a \<equiv> refresh (history ops a)"

text \<open>
  The events of the test suite: \<^verbatim>\<open>new WheelEvent('wheel', {deltaX, deltaY})\<close>, whose
  \<^verbatim>\<open>deltaZ\<close> defaults to 0, and \<^verbatim>\<open>new Event('pointermove')\<close>, which has no deltas.
\<close>

definition wheelEvent :: "rat \<Rightarrow> rat \<Rightarrow> nat \<Rightarrow> event" where
  "wheelEvent dx dy n =
     \<lparr>etype = ''wheel'', evDeltaX = Num dx, evDeltaY = Num dy, evDeltaZ = Num 0, payload = n\<rparr>"

definition pointerMove :: "nat \<Rightarrow> event" where
  "pointerMove n =
     \<lparr>etype = ''pointermove'', evDeltaX = NaN, evDeltaY = NaN, evDeltaZ = NaN, payload = n\<rparr>"

section \<open>PollingRateDetector\<close>

text \<open>
  \<open>cachedPollingRate\<close> is \<^verbatim>\<open>null\<close> (\<open>None\<close>) or a classification; every classification
  is a non-empty string, so the test \<^verbatim>\<open>if (this.cachedPollingRate)\<close> succeeds exactly on
  \<open>Some\<close>. The reading of \<^verbatim>\<open>performance.now()\<close> is the argument \<open>now\<close>; the event
  argument is never inspected.
\<close>

record PollingRateDetector =
  eventTimestamps :: "rat list"
  cachedPollingRate :: "PollingRate option"
  detectedHz :: int

definition SAMPLE_SIZE :: nat where
  "SAMPLE_SIZE = 10"

definition HIGH_POLLING_THRESHOLD :: rat where
  "HIGH_POLLING_THRESHOLD = 1"

definition HIGH_POLLING_COUNT_THRESHOLD :: nat where
  "HIGH_POLLING_COUNT_THRESHOLD = 5"

definition newPollingRateDetector :: PollingRateDetector where
  "newPollingRateDetector = \<lparr>eventTimestamps = [], cachedPollingRate = None, detectedHz = 0\<rparr>"

fun calculateDeltas :: "rat list \<Rightarrow> rat list" where
  "calculateDeltas (a # b # ts) = js_sub b a # calculateDeltas (b # ts)"
| "calculateDeltas _ = []"

definition estimateHz :: "rat list \<Rightarrow> int" where
  "estimateHz deltas =
     (if length deltas = 0 then 0
      else let avgDelta = js_div (js_sum deltas) (of_nat (length deltas))
           in if 0 < avgDelta then js_round (js_div 1000 avgDelta) else 0)"

definition detectPollingRate :: "rat \<Rightarrow> PollingRateDetector \<Rightarrow> PollingRate \<times> PollingRateDetector" where
  "detectPollingRate now d =
     (case cachedPollingRate d of
        Some r \<Rightarrow> (r, d)
      | None \<Rightarrow>
          let pushed = eventTimestamps d @ [now];
              ts = (if SAMPLE_SIZE < length pushed then tl pushed else pushed);
              d1 = d\<lparr>eventTimestamps := ts\<rparr>
          in if length ts < SAMPLE_SIZE then (Unknown, d1)
             else
               let deltas = calculateDeltas ts;
                   highPollingCount = length (filter (\<lambda>x. x < HIGH_POLLING_THRESHOLD) deltas)
               in if HIGH_POLLING_COUNT_THRESHOLD \<le> highPollingCount
                  then (High, d1\<lparr>cachedPollingRate := Some High, detectedHz := estimateHz deltas\<rparr>)
                  else (Standard,
                        d1\<lparr>cachedPollingRate := Some Standard, detectedHz := estimateHz deltas\<rparr>))"

definition getDetectedHz :: "PollingRateDetector \<Rightarrow> int" where
  "getDetectedHz d = detectedHz d"

definition resetDetector :: "PollingRateDetector \<Rightarrow> PollingRateDetector" where
  "resetDetector d = d\<lparr>eventTimestamps := [], cachedPollingRate := None, detectedHz := 0\<rparr>"

text \<open>One call per clock reading, in order: the classifications returned and the final state.\<close>

fun detectAll :: "rat list \<Rightarrow> PollingRateDetector \<Rightarrow> PollingRate list \<times> PollingRateDetector" where
  "detectAll [] d = ([], d)"
| "detectAll (t # ts) d =
     (case detectPollingRate t d of (r, d1) \<Rightarrow>
        (case detectAll ts d1 of (rs, d2) \<Rightarrow> (r # rs, d2)))"

text \<open>Ten clock readings a fixed step apart.\<close>

definition spaced :: "rat \<Rightarrow> rat \<Rightarrow> rat list" where
  "spaced t0 step = map (\<lambda>k. t0 + of_nat k * step) [0..<10]"

text \<open>
  The consecutive-sample deltas in the words of the specification: for each sample but the
  last, the next sample minus this one, as JavaScript subtracts them. It is not taken from
  the loop of \<^verbatim>\<open>calculateDeltas\<close>; that the loop computes it is proved below.
\<close>

definition consecutiveDeltas :: "rat list \<Rightarrow> rat list" where
  "consecutiveDeltas ts = map (\<lambda>i. js_sub (ts ! Suc i) (ts ! i)) [0..<length ts - 1]"

text \<open>
  Nine readings 0.1 ms apart followed by one 1200 ms later: only the deltas of all nine
  consecutive pairs, eight of them below 1 ms, give \<open>High\<close>, and only their average gives
  the rate; the first delta alone would give a rate of 10000.
\<close>

definition burstThenPause :: "rat list" where
  "burstThenPause = [0, 1 / 10, 2 / 10, 3 / 10, 4 / 10, 5 / 10, 6 / 10, 7 / 10, 8 / 10, 1200]"

text \<open>The classification the detector makes of ten clock readings.\<close>

definition classify :: "rat list \<Rightarrow> PollingRate" where
  "classify ts = (if 5 \<le> length (filter (\<lambda>x. x < 1) (calculateDeltas ts)) then High else Standard)"

text \<open>
  Two states of a detector fed a reading every 8 ms, as in the test suite: after nine
  readings, and after the tenth.
\<close>

definition nineSlow :: PollingRateDetector where
  "nineSlow = \<lparr>eventTimestamps = [8, 16, 24, 32, 40, 48, 56, 64, 72],
               cachedPollingRate = None, detectedHz = 0\<rparr>"

definition tenSlow :: PollingRateDetector where
  "tenSlow = \<lparr>eventTimestamps = [8, 16, 24, 32, 40, 48, 56, 64, 72, 80],
              cachedPollingRate = Some Standard, detectedHz = 125\<rparr>"

section \<open>MetricsCollector\<close>

text \<open>
  The two event counts are whole numbers advanced by \<^verbatim>\<open>++\<close>, which is exact below
  \<open>2^53\<close>; they are modelled as integers. \<open>currentFPS\<close> is the result of \<^verbatim>\<open>Math.round\<close>, an
  integer or, when two frames carry the same clock reading and the division is by zero,
  \<^verbatim>\<open>Infinity\<close>. The field \<^verbatim>\<open>detectedHz\<close> of \<^verbatim>\<open>Metrics\<close> is \<open>reportedHz\<close> here, the name
  being taken by the detector.
\<close>

datatype fps = Fps int | PosInfinity

record Metrics =
  pollingRate :: PollingRate
  reportedHz :: rat
  rawEventCount :: int
  flushedEventCount :: int
  reductionPercentage :: int
  currentFPS :: fps
  averageProcessingTime :: rat
  timestamp :: rat

record MetricsCollector =
  metrics :: Metrics
  frameTimestamps :: "rat list"
  eventProcessingTimes :: "rat list"

definition MAX_FRAME_SAMPLES :: nat where
  "MAX_FRAME_SAMPLES = 60"

definition MAX_PROCESSING_SAMPLES :: nat where
  "MAX_PROCESSING_SAMPLES = 100"

definition freshMetrics :: "rat \<Rightarrow> Metrics" where
  "freshMetrics now =
     \<lparr>pollingRate = Unknown, reportedHz = 0, rawEventCount = 0, flushedEventCount = 0,
      reductionPercentage = 0, currentFPS = Fps 0, averageProcessingTime = 0,
      timestamp = now\<rparr>"

definition newMetricsCollector :: "rat \<Rightarrow> MetricsCollector" where
  "newMetricsCollector now =
     \<lparr>metrics = freshMetrics now, frameTimestamps = [], eventProcessingTimes = []\<rparr>"

definition updateReductionPercentage :: "MetricsCollector \<Rightarrow> MetricsCollector" where
  "updateReductionPercentage c =
     (let m = metrics c in
      if rawEventCount m = 0 then c\<lparr>metrics := m\<lparr>reductionPercentage := 0\<rparr>\<rparr>
      else
        let filtered = rawEventCount m - flushedEventCount m
        in c\<lparr>metrics := m\<lparr>reductionPercentage :=
               js_round (js_mul (js_div (of_int filtered) (of_int (rawEventCount m))) 100)\<rparr>\<rparr>)"

definition recordRawEvent :: "MetricsCollector \<Rightarrow> MetricsCollector" where
  "recordRawEvent c =
     updateReductionPercentage
       (c\<lparr>metrics := (metrics c)\<lparr>rawEventCount := rawEventCount (metrics c) + 1\<rparr>\<rparr>)"

definition recordFlushedEvent :: "MetricsCollector \<Rightarrow> MetricsCollector" where
  "recordFlushedEvent c =
     updateReductionPercentage
       (c\<lparr>metrics := (metrics c)\<lparr>flushedEventCount := flushedEventCount (metrics c) + 1\<rparr>\<rparr>)"

definition updateAverageProcessingTime :: "MetricsCollector \<Rightarrow> MetricsCollector" where
  "updateAverageProcessingTime c =
     (if length (eventProcessingTimes c) = 0
      then c\<lparr>metrics := (metrics c)\<lparr>averageProcessingTime := 0\<rparr>\<rparr>
      else c\<lparr>metrics := (metrics c)\<lparr>averageProcessingTime :=
               js_div (js_sum (eventProcessingTimes c))
                      (of_nat (length (eventProcessingTimes c)))\<rparr>\<rparr>)"

definition recordProcessingTime :: "rat \<Rightarrow> MetricsCollector \<Rightarrow> MetricsCollector" where
  "recordProcessingTime timeMs c =
     (let pushed = eventProcessingTimes c @ [timeMs];
          kept = (if MAX_PROCESSING_SAMPLES < length pushed then tl pushed else pushed)
      in updateAverageProcessingTime (c\<lparr>eventProcessingTimes := kept\<rparr>))"

definition updateFPS :: "rat \<Rightarrow> MetricsCollector \<Rightarrow> MetricsCollector" where
  "updateFPS now c =
     (let pushed = frameTimestamps c @ [now];
          kept = (if MAX_FRAME_SAMPLES < length pushed then tl pushed else pushed);
          c1 = c\<lparr>frameTimestamps := kept\<rparr>
      in if 2 \<le> length kept
         then
           let duration = js_sub now (hd kept)
           in c1\<lparr>metrics := (metrics c1)\<lparr>currentFPS :=
                  (if duration = 0 then PosInfinity
                   else Fps (js_round
                          (js_mul (js_div (of_nat (length kept - 1)) duration) 1000)))\<rparr>\<rparr>
         else c1)"

definition updatePollingRate :: "PollingRate \<Rightarrow> rat \<Rightarrow> MetricsCollector \<Rightarrow> MetricsCollector" where
  "updatePollingRate r hz c = c\<lparr>metrics := (metrics c)\<lparr>pollingRate := r, reportedHz := hz\<rparr>\<rparr>"

definition getMetrics :: "rat \<Rightarrow> MetricsCollector \<Rightarrow> Metrics" where
  "getMetrics now c = (metrics c)\<lparr>timestamp := now\<rparr>"

definition resetMetrics :: "rat \<Rightarrow> MetricsCollector \<Rightarrow> MetricsCollector" where
  "resetMetrics now c =
     c\<lparr>metrics := freshMetrics now, frameTimestamps := [], eventProcessingTimes := []\<rparr>"

text \<open>
  The public operations, each with the clock reading or arguments it takes; a snapshot
  read returns a copy and leaves the collector as it was.
\<close>

datatype metricsOp =
    RecordRaw
  | RecordFlushed
  | RecordProcessingTime rat
  | UpdateFPS rat
  | UpdatePollingRate PollingRate rat
  | GetMetrics rat
  | Reset rat

fun applyMetricsOp :: "MetricsCollector \<Rightarrow> metricsOp \<Rightarrow> MetricsCollector" where
  "applyMetricsOp c RecordRaw = recordRawEvent c"
| "applyMetricsOp c RecordFlushed = recordFlushedEvent c"
| "applyMetricsOp c (RecordProcessingTime t) = recordProcessingTime t c"
| "applyMetricsOp c (UpdateFPS now) = updateFPS now c"
| "applyMetricsOp c (UpdatePollingRate r hz) = updatePollingRate r hz c"
| "applyMetricsOp c (GetMetrics now) = c"
| "applyMetricsOp c (Reset now) = resetMetrics now c"

definition collect :: "metricsOp list \<Rightarrow> rat \<Rightarrow> MetricsCollector" where
  "collect ops t0 = foldl applyMetricsOp (newMetricsCollector t0) ops"

text \<open>The operations after the last reset, and how many of them are a given one.\<close>

definition sinceReset :: "metricsOp list \<Rightarrow> metricsOp list" where
  "sinceReset ops = foldl (\<lambda>kept x. case x of Reset t \<Rightarrow> [] | _ \<Rightarrow> kept @ [x]) [] ops"

definition timesRecorded :: "metricsOp \<Rightarrow> metricsOp list \<Rightarrow> int" where
  "timesRecorded x ops = int (length (filter (\<lambda>y. y = x) (sinceReset ops)))"

text \<open>The percentage \<open>updateReductionPercentage\<close> stores for given counts.\<close>

definition reductionOf :: "int \<Rightarrow> int \<Rightarrow> int" where
  "reductionOf raw flushed =
     (if raw = 0 then 0
      else js_round (js_mul (js_div (of_int (raw - flushed)) (of_int raw)) 100))"

text \<open>Two runs: 40 raw events then 17 flushed ones, and the 100 and 10 of the test suite.\<close>

definition fortyRawSeventeenFlushed :: "metricsOp list" where
  "fortyRawSeventeenFlushed = replicate 40 RecordRaw @ replicate 17 RecordFlushed"

definition hundredRawTenFlushed :: "metricsOp list" where
  "hundredRawTenFlushed = replicate 100 RecordRaw @ replicate 10 RecordFlushed"

section \<open>YieldScheduler\<close>

text \<open>
  The host as the scheduler sees it: whether \<^verbatim>\<open>window\<close> exists, and what
  \<^verbatim>\<open>window.scheduler\<close> offers. A native \<^verbatim>\<open>yield\<close> either returns a promise that is
  fulfilled, returns one that is rejected, or throws when called. Promises of the host
  settle, and the zero-delay timer fires.
\<close>

datatype yieldImpl = YieldResolves | YieldRejects | YieldThrows

datatype schedulerProp = NoScheduler | SchedulerWithoutYield | SchedulerYield yieldImpl

record hostEnv =
  windowDefined :: bool
  scheduler :: schedulerProp

text \<open>
  What the host observes, in order: a call of the native \<^verbatim>\<open>yield\<close> with the argument
  passed to it (\<open>None\<close> when called without one), a \<^verbatim>\<open>setTimeout(resolve, 0)\<close>, and the
  call of the work callback. An asynchronous function ends fulfilled or rejected.
\<close>

datatype action = NativeYield "Priority option" | TimerYield | Work

datatype settled = Fulfilled | Rejected

definition isSchedulerSupported :: "hostEnv \<Rightarrow> bool" where
  "isSchedulerSupported env =
     (windowDefined env \<and> scheduler env \<noteq> NoScheduler \<and>
      (case scheduler env of SchedulerYield impl \<Rightarrow> True | _ \<Rightarrow> False))"

definition fallbackYield :: "action list \<times> settled" where
  "fallbackYield = ([TimerYield], Fulfilled)"

text \<open>
  Inside \<^verbatim>\<open>try\<close>: reading \<^verbatim>\<open>window\<close> where there is none throws, a missing scheduler or
  \<^verbatim>\<open>yield\<close> skips the call, and the call is \<^verbatim>\<open>scheduler.yield()\<close>. Whatever is thrown,
  by the call or by awaiting a rejected promise, is caught and answered by the fallback.
\<close>

definition yieldToScheduler :: "hostEnv \<Rightarrow> Priority \<Rightarrow> action list \<times> settled" where
  "yieldToScheduler env priority =
     (if \<not> windowDefined env then fallbackYield
      else case scheduler env of
             SchedulerYield impl \<Rightarrow>
               (case impl of
                  YieldResolves \<Rightarrow> ([NativeYield None], Fulfilled)
                | _ \<Rightarrow> (case fallbackYield of (tr, out) \<Rightarrow> (NativeYield None # tr, out)))
           | _ \<Rightarrow> ([], Fulfilled))"

text \<open>\<open>workThrows\<close> says whether the callback throws when it is called.\<close>

definition processWithYield :: "hostEnv \<Rightarrow> bool \<Rightarrow> Priority \<Rightarrow> action list \<times> settled" where
  "processWithYield env workThrows priority =
     (case (if isSchedulerSupported env then yieldToScheduler env priority else fallbackYield) of
        (tr, Rejected) \<Rightarrow> (tr, Rejected)
      | (tr, Fulfilled) \<Rightarrow> (tr @ [Work], if workThrows then Rejected else Fulfilled))"

text \<open>A host with a working native \<^verbatim>\<open>yield\<close>, and one whose \<^verbatim>\<open>yield\<close> throws.\<close>

definition nativeHost :: hostEnv where
  "nativeHost = \<lparr>windowDefined = True, scheduler = SchedulerYield YieldResolves\<rparr>"

definition throwingHost :: hostEnv where
  "throwingHost = \<lparr>windowDefined = True, scheduler = SchedulerYield YieldThrows\<rparr>"

section \<open>Properties of the SamplingBuffer\<close>

lemma consistent_new: "consistent (newSamplingBuffer a)"
  by (simp add: consistent_def newSamplingBuffer_def)

lemma consistent_buffer: "consistent w \<Longrightarrow> consistent (buffer e w)"
  by (cases w) (auto simp: consistent_def requestAnimationFrame_def Let_def split: option.splits)

lemma consistent_destroy: "consistent w \<Longrightarrow> consistent (destroy w)"
  by (cases w) (auto simp: consistent_def cancelAnimationFrame_def Let_def split: option.splits)

lemma refresh_consistent:
  "consistent w \<Longrightarrow>
   refresh w = (if rafId (fst w) = None then w else flush (fst w, (snd w)\<lparr>rafQueue := []\<rparr>))"
  by (cases w)
     (auto simp: consistent_def refresh_def runCallback_def cancelAnimationFrame_def
           split: option.splits)

lemma consistent_refresh: "consistent w \<Longrightarrow> consistent (refresh w)"
  by (cases w) (auto simp: refresh_consistent consistent_def split: option.splits)

lemma consistent_applyOp: "consistent w \<Longrightarrow> consistent (applyOp w x)"
  by (cases x) (simp_all add: consistent_buffer consistent_destroy consistent_refresh)

lemma consistent_foldl: "consistent w \<Longrightarrow> consistent (foldl applyOp w ops)"
  by (induction ops arbitrary: w) (simp_all add: consistent_applyOp)

lemma consistent_history: "consistent (history ops a)"
  by (simp add: history_def consistent_foldl consistent_new)

text \<open>The accumulation flag never changes.\<close>

lemma should_applyOp: "shouldAccumulateDeltas (fst (applyOp w x)) = shouldAccumulateDeltas (fst w)"
proof (cases x)
  case (Submit e)
  then show ?thesis
    by (cases w) (simp add: Let_def requestAnimationFrame_def)
next
  case Destroy
  then show ?thesis
    by (cases w) (simp add: Let_def split: option.splits)
next
  case Refresh
  have step: "shouldAccumulateDeltas (fst (runCallback v i)) = shouldAccumulateDeltas (fst v)" for v i
    by (cases v) (simp add: runCallback_def split: option.splits)
  have "shouldAccumulateDeltas (fst (foldl runCallback v is)) = shouldAccumulateDeltas (fst v)" for v "is"
    by (induction "is" arbitrary: v) (simp_all add: step)
  with Refresh show ?thesis
    by (simp add: refresh_def)
qed

lemma should_foldl: "shouldAccumulateDeltas (fst (foldl applyOp w ops)) = shouldAccumulateDeltas (fst w)"
  by (induction ops arbitrary: w) (simp_all add: should_applyOp)

lemma should_history: "shouldAccumulateDeltas (fst (history ops a)) = a"
  by (simp add: history_def should_foldl) (simp add: newSamplingBuffer_def)

text \<open>Submitting to an active buffer.\<close>

lemma buffer_active:
  assumes "isActive (fst w)"
  shows "isActive (fst (buffer e w))"
    and "latestEvent (fst (buffer e w)) = Some e"
    and "accumulatedDeltas (fst (buffer e w)) =
           accumulate (shouldAccumulateDeltas (fst w)) (accumulatedDeltas (fst w)) e"
    and "shouldAccumulateDeltas (fst (buffer e w)) = shouldAccumulateDeltas (fst w)"
    and "flushCalls (snd (buffer e w)) = flushCalls (snd w)"
  using assms
  by (cases w; simp add: Let_def requestAnimationFrame_def accumulate_def)+

lemma submitAll_snoc: "submitAll (es @ [e]) w = buffer e (submitAll es w)"
  by (simp add: submitAll_def)

lemma submitAll_active:
  assumes "isActive (fst w)"
  shows "isActive (fst (submitAll es w))
       \<and> shouldAccumulateDeltas (fst (submitAll es w)) = shouldAccumulateDeltas (fst w)
       \<and> flushCalls (snd (submitAll es w)) = flushCalls (snd w)
       \<and> accumulatedDeltas (fst (submitAll es w)) =
           foldl (accumulate (shouldAccumulateDeltas (fst w))) (accumulatedDeltas (fst w)) es
       \<and> (es \<noteq> [] \<longrightarrow> latestEvent (fst (submitAll es w)) = Some (last es))"
proof (induction es rule: rev_induct)
  case Nil
  show ?case using assms by (simp add: submitAll_def)
next
  case (snoc e es)
  then show ?case
    by (simp add: submitAll_snoc buffer_active)
qed

lemma consistent_submitAll: "consistent w \<Longrightarrow> consistent (submitAll es w)"
  by (induction es rule: rev_induct) (simp_all add: submitAll_def consistent_buffer)

text \<open>A refresh with an event pending delivers it once and clears the buffer.\<close>

lemma refresh_pending:
  assumes "consistent w" and "latestEvent (fst w) = Some e"
  shows "refresh w =
           (fst w\<lparr>latestEvent := None, accumulatedDeltas := zeroDeltas, rafId := None\<rparr>,
            snd w\<lparr>rafQueue := [],
                  flushCalls := flushCalls (snd w) @
                    [(e, if shouldAccumulateDeltas (fst w) \<and> isScrollEvent e
                         then Some (accumulatedDeltas (fst w)) else None)]\<rparr>)"
  using assms
  by (cases w) (auto simp: refresh_consistent consistent_def split: option.splits)

lemma refresh_idle:
  assumes "consistent w" and "latestEvent (fst w) = None"
  shows "refresh w = w"
  using assms
  by (cases w) (auto simp: refresh_consistent consistent_def split: option.splits)

lemma history_Nil: "history [] a = newSamplingBuffer a"
  by (simp add: history_def)

lemma history_snoc: "history (ops @ [x]) a = applyOp (history ops a) x"
  by (simp add: history_def)

text \<open>
  Claim C1. Whatever happened to the buffer before, if it is still active and one or more
  events are submitted with no refresh in between, then no delivery happens while they are
  submitted, the next refresh makes exactly one call of the delivery callback, its event
  is the last one submitted, and a further refresh with nothing new delivers nothing.
\<close>

theorem one_delivery_of_last_event:
  assumes "isActive (fst (history ops a))" and "es \<noteq> []"
  shows "flushCalls (snd (submitAll es (history ops a))) = flushCalls (snd (history ops a))
       \<and> (\<exists>d. flushCalls (snd (refresh (submitAll es (history ops a)))) =
                flushCalls (snd (history ops a)) @ [(last es, d)])
       \<and> refresh (refresh (submitAll es (history ops a))) = refresh (submitAll es (history ops a))"
proof -
  let ?w = "history ops a"
  let ?v = "submitAll es ?w"
  have cv: "consistent ?v"
    by (simp add: consistent_submitAll consistent_history)
  have facts: "flushCalls (snd ?v) = flushCalls (snd ?w)" "latestEvent (fst ?v) = Some (last es)"
    using submitAll_active [OF assms(1), of es] assms(2) by simp_all
  have r: "flushCalls (snd (refresh ?v)) = flushCalls (snd ?w) @
             [(last es, if shouldAccumulateDeltas (fst ?v) \<and> isScrollEvent (last es)
                        then Some (accumulatedDeltas (fst ?v)) else None)]"
    by (simp add: refresh_pending [OF cv facts(2)] facts(1))
  have idle: "latestEvent (fst (refresh ?v)) = None"
    by (simp add: refresh_pending [OF cv facts(2)])
  have "refresh (refresh ?v) = refresh ?v"
    by (rule refresh_idle [OF consistent_refresh [OF cv] idle])
  with facts(1) r show ?thesis
    by blast
qed

theorem one_delivery_of_last_event_witness:
  "isActive (fst (history [] True)) \<and> [pointerMove 1, pointerMove 2] \<noteq> []
   \<and> flushCalls (snd (submitAll [pointerMove 1, pointerMove 2] (history [] True))) = []
   \<and> (\<exists>d. flushCalls (snd (refresh (submitAll [pointerMove 1, pointerMove 2] (history [] True)))) =
            [(pointerMove 2, d)])"
  using one_delivery_of_last_event [of "[]" True "[pointerMove 1, pointerMove 2]"]
  by (simp add: history_Nil newSamplingBuffer_def)

lemma foldl_addDeltas:
  "foldl addDeltas d es =
     \<lparr>deltaX = foldl js_plus (deltaX d) (map evDeltaX es),
      deltaY = foldl js_plus (deltaY d) (map evDeltaY es),
      deltaZ = foldl js_plus (deltaZ d) (map evDeltaZ es)\<rparr>"
  by (induction es arbitrary: d) (simp_all add: addDeltas_def)

lemma foldl_accumulate_scroll:
  "\<forall>e\<in>set es. isScrollEvent e \<Longrightarrow> foldl (accumulate True) zeroDeltas es = totalDeltas es"
proof -
  assume "\<forall>e\<in>set es. isScrollEvent e"
  then have "foldl (accumulate True) d es = foldl addDeltas d es" for d
    by (induction es arbitrary: d) (simp_all add: accumulate_def)
  then show ?thesis
    by (simp add: foldl_addDeltas totalDeltas_def js_total_def zeroDeltas_def)
qed

lemma foldl_accumulate_off: "foldl (accumulate False) d es = d"
  by (induction es) (simp_all add: accumulate_def)

lemma js_total_single: "isDouble x \<Longrightarrow> js_total [x] = x"
  by (cases x) (simp_all add: js_total_def js_add_def)

text \<open>The state at the start of a refresh interval: nothing pending, nothing summed.\<close>

lemma interval_start:
  "latestEvent (fst (refresh (history ops a))) = None
   \<and> accumulatedDeltas (fst (refresh (history ops a))) = zeroDeltas
   \<and> rafId (fst (refresh (history ops a))) = None
   \<and> rafQueue (snd (refresh (history ops a))) = []
   \<and> shouldAccumulateDeltas (fst (refresh (history ops a))) = a
   \<and> consistent (refresh (history ops a))"
proof -
  have eq: "refresh (history ops a) = history (ops @ [Refresh]) a"
    by (simp add: history_snoc)
  have c: "consistent (history ops a)"
    by (rule consistent_history)
  have idle: "latestEvent (fst (refresh (history ops a))) = None"
  proof (cases "latestEvent (fst (history ops a))")
    case None
    then show ?thesis by (simp add: refresh_idle [OF c])
  next
    case (Some e)
    then show ?thesis by (simp add: refresh_pending [OF c])
  qed
  have c': "consistent (refresh (history ops a))"
    by (rule consistent_refresh [OF c])
  have s: "shouldAccumulateDeltas (fst (refresh (history ops a))) = a"
    unfolding eq by (rule should_history)
  from c' idle s show ?thesis
    by (cases "refresh (history ops a)") (auto simp: consistent_def)
qed

lemma flush_resets: "consistent w \<Longrightarrow> accumulatedDeltas (fst (flush w)) = zeroDeltas"
  by (cases w) (auto simp: consistent_def split: option.splits)

lemma totalDeltas_single:
  "isDouble (evDeltaX e) \<Longrightarrow> isDouble (evDeltaY e) \<Longrightarrow> isDouble (evDeltaZ e) \<Longrightarrow>
   totalDeltas [e] = \<lparr>deltaX = evDeltaX e, deltaY = evDeltaY e, deltaZ = evDeltaZ e\<rparr>"
  by (simp add: totalDeltas_def js_total_single)

lemma interval_delivery:
  assumes act: "isActive (fst w)" and c: "consistent w" and idle: "latestEvent (fst w) = None"
    and ne: "es \<noteq> []" and scroll: "\<forall>e\<in>set es. isScrollEvent e"
  shows "flushCalls (snd (refresh (submitAll es w))) =
           flushCalls (snd w) @
             [(last es, if shouldAccumulateDeltas (fst w) then Some (totalDeltas es) else None)]"
    and "latestEvent (fst (refresh (submitAll es w))) = None"
    and "accumulatedDeltas (fst (refresh (submitAll es w))) = zeroDeltas"
    and "isActive (fst (refresh (submitAll es w)))"
    and "shouldAccumulateDeltas (fst (refresh (submitAll es w))) = shouldAccumulateDeltas (fst w)"
    and "consistent (refresh (submitAll es w))"
proof -
  let ?v = "submitAll es w"
  have cv: "consistent ?v"
    by (simp add: consistent_submitAll c)
  have z: "accumulatedDeltas (fst w) = zeroDeltas"
    using c idle by (cases w) (simp add: consistent_def)
  have facts: "flushCalls (snd ?v) = flushCalls (snd w)" "latestEvent (fst ?v) = Some (last es)"
    "shouldAccumulateDeltas (fst ?v) = shouldAccumulateDeltas (fst w)" "isActive (fst ?v)"
    "accumulatedDeltas (fst ?v) =
       foldl (accumulate (shouldAccumulateDeltas (fst w))) zeroDeltas es"
    using submitAll_active [OF act, of es] ne z by simp_all
  have l: "isScrollEvent (last es)"
    using ne scroll by simp
  have sum: "shouldAccumulateDeltas (fst w) \<Longrightarrow> accumulatedDeltas (fst ?v) = totalDeltas es"
    using facts(5) foldl_accumulate_scroll [OF scroll] by simp
  show "flushCalls (snd (refresh ?v)) =
           flushCalls (snd w) @
             [(last es, if shouldAccumulateDeltas (fst w) then Some (totalDeltas es) else None)]"
    using sum by (simp add: refresh_pending [OF cv facts(2)] facts(1) facts(3) l)
  show "latestEvent (fst (refresh ?v)) = None"
    and "accumulatedDeltas (fst (refresh ?v)) = zeroDeltas"
    and "isActive (fst (refresh ?v))"
    and "shouldAccumulateDeltas (fst (refresh ?v)) = shouldAccumulateDeltas (fst w)"
    by (simp_all add: refresh_pending [OF cv facts(2)] facts(3) facts(4))
  show "consistent (refresh ?v)"
    by (rule consistent_refresh [OF cv])
qed

text \<open>
  Claim C2. The wheel or scroll events \<open>es\<close> are everything submitted to an active buffer
  between one refresh and the next. With accumulation enabled the deltas delivered at that
  next refresh are the component-wise sum of the deltas of \<open>es\<close>; with accumulation
  disabled the deltas argument is absent. After that refresh, as after any flush of any
  history, the accumulated deltas are zero, and a single wheel or scroll event \<open>e'\<close>
  submitted afterwards is delivered with the sum over \<open>e'\<close> alone, which is the deltas of
  \<open>e'\<close> themselves.
\<close>

theorem delivered_deltas_are_interval_sum:
  assumes "isActive (fst (intervalStart ops a))"
    and "es \<noteq> []" and "\<forall>e\<in>set es. isScrollEvent e" and "isScrollEvent e'"
  shows "flushCalls (snd (refresh (submitAll es (intervalStart ops a)))) =
           flushCalls (snd (intervalStart ops a)) @
             [(last es, if a then Some (totalDeltas es) else None)]
       \<and> accumulatedDeltas (fst (refresh (submitAll es (intervalStart ops a)))) = zeroDeltas
       \<and> accumulatedDeltas (fst (flush (history ops' a'))) = zeroDeltas
       \<and> flushCalls (snd (refresh (buffer e' (refresh (submitAll es (intervalStart ops a)))))) =
           flushCalls (snd (intervalStart ops a)) @
             [(last es, if a then Some (totalDeltas es) else None),
              (e', if a then Some (totalDeltas [e']) else None)]
       \<and> (isDouble (evDeltaX e') \<and> isDouble (evDeltaY e') \<and> isDouble (evDeltaZ e') \<longrightarrow>
            totalDeltas [e'] = \<lparr>deltaX = evDeltaX e', deltaY = evDeltaY e', deltaZ = evDeltaZ e'\<rparr>)"
proof -
  let ?w = "intervalStart ops a"
  let ?u = "refresh (submitAll es ?w)"
  have st: "latestEvent (fst ?w) = None" "shouldAccumulateDeltas (fst ?w) = a" "consistent ?w"
    using interval_start [of ops a] by simp_all
  note first = interval_delivery [OF assms(1) st(3) st(1) assms(2) assms(3)]
  have one: "submitAll [e'] ?u = buffer e' ?u"
    by (simp add: submitAll_def)
  have second: "flushCalls (snd (refresh (buffer e' ?u))) =
      flushCalls (snd ?u) @ [(e', if shouldAccumulateDeltas (fst ?u) then Some (totalDeltas [e']) else None)]"
    using interval_delivery(1) [OF first(4) first(6) first(2), of "[e']"] assms(4)
    by (simp add: one)
  have "accumulatedDeltas (fst (flush (history ops' a'))) = zeroDeltas"
    by (rule flush_resets [OF consistent_history])
  with first(1) first(3) second first(5) st(2) totalDeltas_single [of e'] show ?thesis
    by simp
qed

lemma isScrollEvent_wheelEvent: "isScrollEvent (wheelEvent dx dy n)"
  by (simp add: isScrollEvent_def wheelEvent_def)

lemma not_isScrollEvent_pointerMove: "\<not> isScrollEvent (pointerMove n)"
  by (simp add: isScrollEvent_def pointerMove_def)

lemma totalDeltas_example:
  "totalDeltas [wheelEvent 10 20 4, wheelEvent 5 15 2] =
     \<lparr>deltaX = Num 15, deltaY = Num 35, deltaZ = Num 0\<rparr>"
  by code_simp

theorem delivered_deltas_are_interval_sum_witness:
  "isActive (fst (intervalStart [] True))
   \<and> [wheelEvent 10 20 4, wheelEvent 5 15 2] \<noteq> []
   \<and> isScrollEvent (wheelEvent 10 20 4) \<and> isScrollEvent (wheelEvent 5 15 2)
   \<and> isScrollEvent (wheelEvent 5 15 3)
   \<and> flushCalls (snd (refresh (submitAll [wheelEvent 10 20 4, wheelEvent 5 15 2]
                                 (intervalStart [] True)))) =
       [(wheelEvent 5 15 2, Some \<lparr>deltaX = Num 15, deltaY = Num 35, deltaZ = Num 0\<rparr>)]"
  using delivered_deltas_are_interval_sum
          [of "[]" True "[wheelEvent 10 20 4, wheelEvent 5 15 2]" "wheelEvent 5 15 3"]
  by (simp add: history_Nil newSamplingBuffer_def refresh_def isScrollEvent_wheelEvent
        totalDeltas_example)

lemma destroy_twice: "destroy (destroy w) = destroy w"
  by (cases w) (simp add: Let_def split: option.splits)

lemma buffer_destroyed: "buffer e (destroy w) = destroy w"
  by (cases w) (simp add: Let_def split: option.splits)

lemma destroy_consistent_queue:
  "consistent w \<Longrightarrow> rafQueue (snd (destroy w)) = [] \<and> flushCalls (snd (destroy w)) = flushCalls (snd w)"
  by (cases w) (auto simp: consistent_def cancelAnimationFrame_def Let_def split: option.splits)

lemma refresh_empty_queue: "rafQueue (snd w) = [] \<Longrightarrow> refresh w = w"
  by (simp add: refresh_def)

lemma destroyed_stays:
  assumes "rafQueue (snd (destroy w)) = []"
  shows "foldl applyOp (destroy w) later = destroy w"
proof (induction later rule: rev_induct)
  case Nil
  show ?case by simp
next
  case (snoc x xs)
  show ?case
  proof (cases x)
    case (Submit e)
    with snoc show ?thesis by (simp add: buffer_destroyed)
  next
    case Destroy
    with snoc show ?thesis by (simp add: destroy_twice)
  next
    case Refresh
    with snoc show ?thesis by (simp add: refresh_empty_queue [OF assms])
  qed
qed

text \<open>
  Claim C3. After \<open>destroy\<close>, \<open>buffer\<close> changes nothing; a second \<open>destroy\<close> changes
  nothing; no flush is left in the queue of the host, and none has been delivered by
  destroying; and whatever is done afterwards (submissions, refreshes, further calls of
  \<open>destroy\<close>), the state stays the same, so the delivery callback is never called again.
\<close>

theorem destroy_ends_delivery:
  "buffer e (destroy w) = destroy w
   \<and> destroy (destroy w) = destroy w
   \<and> rafQueue (snd (destroy (history ops a))) = []
   \<and> flushCalls (snd (destroy (history ops a))) = flushCalls (snd (history ops a))
   \<and> foldl applyOp (destroy (history ops a)) later = destroy (history ops a)"
  using destroy_consistent_queue [OF consistent_history, of ops a]
  by (simp add: buffer_destroyed destroy_twice destroyed_stays)

theorem destroy_ends_delivery_witness:
  "flushCalls (snd (foldl applyOp (destroy (history [Submit (pointerMove 1)] True))
                      [Refresh, Submit (pointerMove 2), Refresh])) = []
   \<and> rafQueue (snd (history [Submit (pointerMove 1)] True)) = [1]"
  using destroy_ends_delivery [of "pointerMove 2" "history [] True" "[Submit (pointerMove 1)]" True
          "[Refresh, Submit (pointerMove 2), Refresh]"]
  by (simp add: history_def newSamplingBuffer_def requestAnimationFrame_def Let_def
        isScrollEvent_def pointerMove_def)

lemma buffer_idle_state:
  assumes "isActive (fst w)" and "rafId (fst w) = None"
  shows "buffer e w =
     (fst w\<lparr>latestEvent := Some e,
            accumulatedDeltas := accumulate (shouldAccumulateDeltas (fst w)) (accumulatedDeltas (fst w)) e,
            rafId := Some (rafNext (snd w))\<rparr>,
      snd w\<lparr>rafNext := rafNext (snd w) + 1, rafQueue := rafQueue (snd w) @ [rafNext (snd w)]\<rparr>)"
  using assms by (cases w) (simp add: Let_def requestAnimationFrame_def accumulate_def)

lemma buffer_scheduled_state:
  assumes "isActive (fst w)" and "rafId (fst w) = Some i"
  shows "buffer e w =
     (fst w\<lparr>latestEvent := Some e,
            accumulatedDeltas := accumulate (shouldAccumulateDeltas (fst w)) (accumulatedDeltas (fst w)) e\<rparr>,
      snd w)"
  using assms by (cases w) (simp add: Let_def accumulate_def)

lemma submitAll_host:
  assumes "isActive (fst w)" and "rafId (fst w) = None" and "es \<noteq> []"
  shows "snd (submitAll es w) =
           snd w\<lparr>rafNext := rafNext (snd w) + 1, rafQueue := rafQueue (snd w) @ [rafNext (snd w)]\<rparr>
       \<and> rafId (fst (submitAll es w)) = Some (rafNext (snd w))"
  using assms(3)
proof (induction es rule: rev_induct)
  case Nil
  then show ?case by simp
next
  case (snoc e es)
  show ?case
  proof (cases "es = []")
    case True
    then show ?thesis
      by (simp add: submitAll_def buffer_idle_state [OF assms(1) assms(2)])
  next
    case False
    have act: "isActive (fst (submitAll es w))"
      using submitAll_active [OF assms(1), of es] by simp
    from False snoc.IH have ih: "snd (submitAll es w) =
           snd w\<lparr>rafNext := rafNext (snd w) + 1, rafQueue := rafQueue (snd w) @ [rafNext (snd w)]\<rparr>"
      "rafId (fst (submitAll es w)) = Some (rafNext (snd w))"
      by simp_all
    show ?thesis
      by (simp add: submitAll_snoc buffer_scheduled_state [OF act ih(2)] ih)
  qed
qed

text \<open>
  Claim C10. With accumulation enabled, a flush whose pending event \<open>e\<close> is not a wheel or
  scroll event calls the delivery callback with the deltas argument absent and resets the
  accumulated deltas to zero. So when any events \<open>es\<close>, wheel events included, are
  followed by \<open>e\<close> within one refresh interval, the refresh delivers \<open>e\<close> without deltas
  and leaves the buffer exactly as it was at the start of the interval: what \<open>es\<close> had
  added is delivered to nobody.
\<close>

theorem non_scroll_flush_drops_deltas:
  assumes "isActive (fst (intervalStart ops True))" and "\<not> isScrollEvent e"
  shows "refresh (submitAll (es @ [e]) (intervalStart ops True)) =
           (fst (intervalStart ops True),
            snd (intervalStart ops True)
              \<lparr>rafNext := rafNext (snd (intervalStart ops True)) + 1,
               flushCalls := flushCalls (snd (intervalStart ops True)) @ [(e, None)]\<rparr>)
       \<and> (latestEvent b = Some e \<longrightarrow>
            flushCalls (snd (flush (b, h))) = flushCalls h @ [(e, None)]
            \<and> accumulatedDeltas (fst (flush (b, h))) = zeroDeltas)"
proof -
  let ?w = "intervalStart ops True"
  let ?v = "submitAll (es @ [e]) ?w"
  have st: "latestEvent (fst ?w) = None" "accumulatedDeltas (fst ?w) = zeroDeltas"
    "rafId (fst ?w) = None" "rafQueue (snd ?w) = []" "consistent ?w"
    using interval_start [of ops True] by simp_all
  have cv: "consistent ?v"
    by (rule consistent_submitAll [OF st(5)])
  have facts: "flushCalls (snd ?v) = flushCalls (snd ?w)" "latestEvent (fst ?v) = Some e"
    "isActive (fst ?v)" "shouldAccumulateDeltas (fst ?v) = shouldAccumulateDeltas (fst ?w)"
    using submitAll_active [OF assms(1), of "es @ [e]"] by simp_all
  have hostv: "snd ?v = snd ?w\<lparr>rafNext := rafNext (snd ?w) + 1, rafQueue := [rafNext (snd ?w)]\<rparr>"
    using submitAll_host [OF assms(1) st(3), of "es @ [e]"] st(4) by simp
  have bufv: "fst ?v\<lparr>latestEvent := None, accumulatedDeltas := zeroDeltas, rafId := None\<rparr> = fst ?w"
    using facts(3) facts(4) assms(1) st(1) st(2) st(3)
    by (cases "fst ?v"; cases "fst ?w") simp
  have "refresh ?v = (fst ?w, snd ?w\<lparr>rafNext := rafNext (snd ?w) + 1,
                                      flushCalls := flushCalls (snd ?w) @ [(e, None)]\<rparr>)"
    using st(4) by (simp add: refresh_pending [OF cv facts(2)] assms(2) bufv hostv)
  moreover have "latestEvent b = Some e \<longrightarrow>
            flushCalls (snd (flush (b, h))) = flushCalls h @ [(e, None)]
            \<and> accumulatedDeltas (fst (flush (b, h))) = zeroDeltas"
    using assms(2) by simp
  ultimately show ?thesis
    by blast
qed

theorem non_scroll_flush_drops_deltas_witness:
  "isActive (fst (intervalStart [] True)) \<and> \<not> isScrollEvent (pointerMove 3)
   \<and> flushCalls (snd (refresh (submitAll ([wheelEvent 10 20 4, wheelEvent 5 15 2] @ [pointerMove 3])
                                 (intervalStart [] True)))) = [(pointerMove 3, None)]
   \<and> accumulatedDeltas (fst (refresh (submitAll ([wheelEvent 10 20 4, wheelEvent 5 15 2] @ [pointerMove 3])
                                 (intervalStart [] True)))) = zeroDeltas"
  using non_scroll_flush_drops_deltas
          [of "[]" "pointerMove 3" "[wheelEvent 10 20 4, wheelEvent 5 15 2]"]
  by (simp add: history_Nil newSamplingBuffer_def refresh_def isScrollEvent_def pointerMove_def)

section \<open>Properties of the PollingRateDetector\<close>

lemma pow2_pos: "0 < pow2 k"
  by (simp add: pow2_def)

lemma roundHalfEven_nonneg: "0 \<le> x \<Longrightarrow> 0 \<le> roundHalfEven x"
  by (simp add: roundHalfEven_def Let_def)

lemma fl_nonneg: "0 \<le> q \<Longrightarrow> 0 \<le> fl q"
  by (simp add: fl_def Let_def roundHalfEven_nonneg pow2_pos less_imp_le)

lemma js_sum_nonneg_aux: "0 \<le> acc \<Longrightarrow> \<forall>x\<in>set xs. 0 \<le> x \<Longrightarrow> 0 \<le> foldl js_add acc xs"
  by (induction xs arbitrary: acc) (simp_all add: js_add_def fl_nonneg)

lemma js_sum_nonneg: "\<forall>x\<in>set xs. 0 \<le> x \<Longrightarrow> 0 \<le> js_sum xs"
  by (simp add: js_sum_def js_sum_nonneg_aux)

lemma calculateDeltas_nonneg: "sorted ts \<Longrightarrow> \<forall>x\<in>set (calculateDeltas ts). 0 \<le> x"
  by (induction ts rule: calculateDeltas.induct) (simp_all add: js_sub_def fl_nonneg)

lemma length_calculateDeltas: "length (calculateDeltas ts) = length ts - 1"
  by (induction ts rule: calculateDeltas.induct) simp_all

text \<open>The loop of \<open>calculateDeltas\<close> yields exactly the consecutive-sample deltas.\<close>

lemma calculateDeltas_consecutive: "calculateDeltas ts = consecutiveDeltas ts"
proof (induction ts rule: calculateDeltas.induct)
  case (1 a b ts)
  have "consecutiveDeltas (a # b # ts) =
          js_sub b a # map (\<lambda>i. js_sub ((b # ts) ! Suc i) ((b # ts) ! i)) [0..<length ts]"
    by (simp add: consecutiveDeltas_def map_upt_Suc del: upt_Suc)
  also have "\<dots> = js_sub b a # consecutiveDeltas (b # ts)"
    by (simp add: consecutiveDeltas_def)
  finally show ?case
    using "1.IH" by simp
qed (simp_all add: consecutiveDeltas_def)

lemma detectAll_append:
  "detectAll (xs @ ys) d =
     (case detectAll xs d of (rs, d1) \<Rightarrow>
        (case detectAll ys d1 of (rs', d2) \<Rightarrow> (rs @ rs', d2)))"
  by (induction xs arbitrary: d) (simp_all split: prod.splits)

lemma unknown_phase:
  "cachedPollingRate d = None \<Longrightarrow> length (eventTimestamps d) + length ts < 10 \<Longrightarrow>
   detectAll ts d = (replicate (length ts) Unknown, d\<lparr>eventTimestamps := eventTimestamps d @ ts\<rparr>)"
proof (induction ts arbitrary: d)
  case Nil
  then show ?case by simp
next
  case (Cons t ts)
  let ?d1 = "d\<lparr>eventTimestamps := eventTimestamps d @ [t]\<rparr>"
  from Cons.prems have step: "detectPollingRate t d = (Unknown, ?d1)"
    by (simp add: detectPollingRate_def SAMPLE_SIZE_def Let_def)
  from Cons.prems have "detectAll ts ?d1 =
      (replicate (length ts) Unknown, ?d1\<lparr>eventTimestamps := eventTimestamps ?d1 @ ts\<rparr>)"
    by (intro Cons.IH) simp_all
  with step show ?case by simp
qed

lemma tenth_call:
  assumes "length ts = 10"
  shows "detectAll ts newPollingRateDetector =
           (replicate 9 Unknown @ [classify ts],
            \<lparr>eventTimestamps = ts, cachedPollingRate = Some (classify ts),
             detectedHz = estimateHz (calculateDeltas ts)\<rparr>)"
proof -
  from assms have ne: "ts \<noteq> []" by auto
  let ?pre = "butlast ts"
  let ?t = "last ts"
  have split: "ts = ?pre @ [?t]" using ne by simp
  have len: "length ?pre = 9" using assms by simp
  let ?d = "newPollingRateDetector\<lparr>eventTimestamps := ?pre\<rparr>"
  have first: "detectAll ?pre newPollingRateDetector = (replicate 9 Unknown, ?d)"
    using unknown_phase [of newPollingRateDetector ?pre] len
    by (simp add: newPollingRateDetector_def)
  have last: "detectPollingRate ?t ?d =
      (classify ts, \<lparr>eventTimestamps = ts, cachedPollingRate = Some (classify ts),
             detectedHz = estimateHz (calculateDeltas ts)\<rparr>)"
    using len assms split
    by (simp add: detectPollingRate_def SAMPLE_SIZE_def Let_def newPollingRateDetector_def
        classify_def HIGH_POLLING_THRESHOLD_def HIGH_POLLING_COUNT_THRESHOLD_def)
  have "detectAll ts newPollingRateDetector = detectAll (?pre @ [?t]) newPollingRateDetector"
    using split by simp
  also have "\<dots> = (replicate 9 Unknown @ [classify ts],
            \<lparr>eventTimestamps = ts, cachedPollingRate = Some (classify ts),
             detectedHz = estimateHz (calculateDeltas ts)\<rparr>)"
    by (simp only: detectAll_append first) (simp add: last)
  finally show ?thesis .
qed

lemma estimateHz_monotone_clock:
  assumes "sorted ts" and "length ts = 10"
  shows "estimateHz (calculateDeltas ts) =
           (let avg = js_div (js_sum (calculateDeltas ts)) 9
            in if avg = 0 then 0 else js_round (js_div 1000 avg))"
proof -
  have "0 \<le> js_sum (calculateDeltas ts)"
    by (rule js_sum_nonneg [OF calculateDeltas_nonneg [OF assms(1)]])
  then have "0 \<le> js_div (js_sum (calculateDeltas ts)) 9"
    by (simp add: js_div_def fl_nonneg)
  then show ?thesis
    using assms(2) by (auto simp: estimateHz_def Let_def length_calculateDeltas)
qed

lemma spaced_deltas: "calculateDeltas (spaced t0 s) = replicate 9 (fl s)"
  by (simp add: spaced_def js_sub_def algebra_simps numeral_eq_Suc)

lemma length_spaced: "length (spaced t0 s) = 10"
  by (simp add: spaced_def)

lemma fast_values:
  "length (filter (\<lambda>x. x < 1) (replicate 9 (fl (1 / 8)))) = 9"
  "estimateHz (replicate 9 (fl (1 / 8))) = 8000"
  by code_simp+

lemma slow_values:
  "length (filter (\<lambda>x. x < 1) (replicate 9 (fl 8))) = 0"
  "estimateHz (replicate 9 (fl 8)) = 125"
  by code_simp+

text \<open>
  Claim C4. A fresh detector answers \<open>Unknown\<close> to every call while fewer than ten clock
  readings have been taken. The tenth call classifies: \<open>High\<close> exactly when at least 5 of
  the 9 consecutive-sample deltas (each reading minus the one before it) are below 1 ms,
  \<open>Standard\<close> otherwise. The estimated rate is \<^verbatim>\<open>Math.round(1000 / avg)\<close> when the
  average \<open>avg\<close> of those deltas is positive and 0 otherwise; the clock being monotonic,
  otherwise means that the average is 0. Ten readings 0.125 ms apart give \<open>High\<close> and a
  rate above 1000; ten readings 8 ms apart give \<open>Standard\<close> and a rate below 200.
\<close>

theorem detector_classification:
  "(length ts < 10 \<longrightarrow>
      fst (detectAll ts newPollingRateDetector) = replicate (length ts) Unknown)
   \<and> (length us = 10 \<longrightarrow>
        fst (detectAll us newPollingRateDetector) =
          replicate 9 Unknown @
            [if 5 \<le> length (filter (\<lambda>x. x < 1) (consecutiveDeltas us)) then High else Standard]
        \<and> consecutiveDeltas us =
            [js_sub (us ! 1) (us ! 0), js_sub (us ! 2) (us ! 1), js_sub (us ! 3) (us ! 2),
             js_sub (us ! 4) (us ! 3), js_sub (us ! 5) (us ! 4), js_sub (us ! 6) (us ! 5),
             js_sub (us ! 7) (us ! 6), js_sub (us ! 8) (us ! 7), js_sub (us ! 9) (us ! 8)]
        \<and> getDetectedHz (snd (detectAll us newPollingRateDetector)) =
            (let avg = js_div (js_sum (consecutiveDeltas us)) 9
             in if 0 < avg then js_round (js_div 1000 avg) else 0)
        \<and> (sorted us \<longrightarrow>
             getDetectedHz (snd (detectAll us newPollingRateDetector)) =
               (let avg = js_div (js_sum (consecutiveDeltas us)) 9
                in if avg = 0 then 0 else js_round (js_div 1000 avg))))
   \<and> last (fst (detectAll (spaced t0 (1 / 8)) newPollingRateDetector)) = High
   \<and> 1000 < getDetectedHz (snd (detectAll (spaced t0 (1 / 8)) newPollingRateDetector))
   \<and> last (fst (detectAll (spaced t1 8) newPollingRateDetector)) = Standard
   \<and> getDetectedHz (snd (detectAll (spaced t1 8) newPollingRateDetector)) < 200"
proof -
  have a: "length ts < 10 \<longrightarrow>
      fst (detectAll ts newPollingRateDetector) = replicate (length ts) Unknown"
    using unknown_phase [of newPollingRateDetector ts]
    by (simp add: newPollingRateDetector_def)
  have b: "length us = 10 \<longrightarrow>
        fst (detectAll us newPollingRateDetector) =
          replicate 9 Unknown @
            [if 5 \<le> length (filter (\<lambda>x. x < 1) (consecutiveDeltas us)) then High else Standard]
        \<and> consecutiveDeltas us =
            [js_sub (us ! 1) (us ! 0), js_sub (us ! 2) (us ! 1), js_sub (us ! 3) (us ! 2),
             js_sub (us ! 4) (us ! 3), js_sub (us ! 5) (us ! 4), js_sub (us ! 6) (us ! 5),
             js_sub (us ! 7) (us ! 6), js_sub (us ! 8) (us ! 7), js_sub (us ! 9) (us ! 8)]
        \<and> getDetectedHz (snd (detectAll us newPollingRateDetector)) =
            (let avg = js_div (js_sum (consecutiveDeltas us)) 9
             in if 0 < avg then js_round (js_div 1000 avg) else 0)
        \<and> (sorted us \<longrightarrow>
             getDetectedHz (snd (detectAll us newPollingRateDetector)) =
               (let avg = js_div (js_sum (consecutiveDeltas us)) 9
                in if avg = 0 then 0 else js_round (js_div 1000 avg)))"
  proof
    assume len: "length us = 10"
    have cls: "fst (detectAll us newPollingRateDetector) =
          replicate 9 Unknown @
            [if 5 \<le> length (filter (\<lambda>x. x < 1) (consecutiveDeltas us)) then High else Standard]"
      by (simp add: tenth_call [OF len] classify_def calculateDeltas_consecutive)
    have nine: "consecutiveDeltas us =
            [js_sub (us ! 1) (us ! 0), js_sub (us ! 2) (us ! 1), js_sub (us ! 3) (us ! 2),
             js_sub (us ! 4) (us ! 3), js_sub (us ! 5) (us ! 4), js_sub (us ! 6) (us ! 5),
             js_sub (us ! 7) (us ! 6), js_sub (us ! 8) (us ! 7), js_sub (us ! 9) (us ! 8)]"
      using len by (simp add: consecutiveDeltas_def numeral_eq_Suc)
    have hz: "getDetectedHz (snd (detectAll us newPollingRateDetector)) =
            (let avg = js_div (js_sum (consecutiveDeltas us)) 9
             in if 0 < avg then js_round (js_div 1000 avg) else 0)"
      using len
      by (simp add: tenth_call [OF len] getDetectedHz_def estimateHz_def Let_def
          length_calculateDeltas calculateDeltas_consecutive [symmetric])
    have mono: "sorted us \<longrightarrow>
             getDetectedHz (snd (detectAll us newPollingRateDetector)) =
               (let avg = js_div (js_sum (consecutiveDeltas us)) 9
                in if avg = 0 then 0 else js_round (js_div 1000 avg))"
      using estimateHz_monotone_clock [OF _ len]
      by (simp add: tenth_call [OF len] getDetectedHz_def calculateDeltas_consecutive)
    from cls nine hz mono show "fst (detectAll us newPollingRateDetector) =
          replicate 9 Unknown @
            [if 5 \<le> length (filter (\<lambda>x. x < 1) (consecutiveDeltas us)) then High else Standard]
        \<and> consecutiveDeltas us =
            [js_sub (us ! 1) (us ! 0), js_sub (us ! 2) (us ! 1), js_sub (us ! 3) (us ! 2),
             js_sub (us ! 4) (us ! 3), js_sub (us ! 5) (us ! 4), js_sub (us ! 6) (us ! 5),
             js_sub (us ! 7) (us ! 6), js_sub (us ! 8) (us ! 7), js_sub (us ! 9) (us ! 8)]
        \<and> getDetectedHz (snd (detectAll us newPollingRateDetector)) =
            (let avg = js_div (js_sum (consecutiveDeltas us)) 9
             in if 0 < avg then js_round (js_div 1000 avg) else 0)
        \<and> (sorted us \<longrightarrow>
             getDetectedHz (snd (detectAll us newPollingRateDetector)) =
               (let avg = js_div (js_sum (consecutiveDeltas us)) 9
                in if avg = 0 then 0 else js_round (js_div 1000 avg)))"
      by blast
  qed
  have c: "last (fst (detectAll (spaced t0 (1 / 8)) newPollingRateDetector)) = High"
    "getDetectedHz (snd (detectAll (spaced t0 (1 / 8)) newPollingRateDetector)) = 8000"
    by (simp_all add: tenth_call [OF length_spaced] classify_def spaced_deltas fast_values
        getDetectedHz_def)
  have d: "last (fst (detectAll (spaced t1 8) newPollingRateDetector)) = Standard"
    "getDetectedHz (snd (detectAll (spaced t1 8) newPollingRateDetector)) = 125"
    by (simp_all add: tenth_call [OF length_spaced] classify_def spaced_deltas slow_values
        getDetectedHz_def)
  have c': "1000 < getDetectedHz (snd (detectAll (spaced t0 (1 / 8)) newPollingRateDetector))"
    by (simp add: c(2))
  have d': "getDetectedHz (snd (detectAll (spaced t1 8) newPollingRateDetector)) < 200"
    by (simp add: d(2))
  from a b c(1) c' d(1) d' show ?thesis
    by blast
qed

lemma burstThenPause_values:
  "length burstThenPause = 10"
  "sorted burstThenPause"
  "length (filter (\<lambda>x. x < 1) (consecutiveDeltas burstThenPause)) = 8"
  "(let avg = js_div (js_sum (consecutiveDeltas burstThenPause)) 9
    in if avg = 0 then 0 else js_round (js_div 1000 avg)) = 7"
  by code_simp+

theorem detector_classification_witness:
  "length [1, 2, 3 :: rat] < 10 \<and> length burstThenPause = 10 \<and> sorted burstThenPause
   \<and> fst (detectAll [1, 2, 3] newPollingRateDetector) = [Unknown, Unknown, Unknown]
   \<and> length (filter (\<lambda>x. x < 1) (consecutiveDeltas burstThenPause)) = 8
   \<and> fst (detectAll burstThenPause newPollingRateDetector) = replicate 9 Unknown @ [High]
   \<and> getDetectedHz (snd (detectAll burstThenPause newPollingRateDetector)) = 7"
proof -
  note t = detector_classification [of "[1, 2, 3]" burstThenPause 0 0]
  have l: "length [1, 2, 3 :: rat] < 10"
    by simp
  have r: "replicate (length [1, 2, 3 :: rat]) Unknown = [Unknown, Unknown, Unknown]"
    by (simp add: numeral_eq_Suc)
  have p1: "fst (detectAll [1, 2, 3] newPollingRateDetector) =
              replicate (length [1, 2, 3 :: rat]) Unknown"
    using t l by blast
  have p2: "fst (detectAll burstThenPause newPollingRateDetector) =
              replicate 9 Unknown @
                [if 5 \<le> length (filter (\<lambda>x. x < 1) (consecutiveDeltas burstThenPause))
                 then High else Standard]"
    using t burstThenPause_values(1) by blast
  have p3: "getDetectedHz (snd (detectAll burstThenPause newPollingRateDetector)) =
              (let avg = js_div (js_sum (consecutiveDeltas burstThenPause)) 9
               in if avg = 0 then 0 else js_round (js_div 1000 avg))"
    using t burstThenPause_values(1) burstThenPause_values(2) by blast
  have cls: "fst (detectAll burstThenPause newPollingRateDetector) = replicate 9 Unknown @ [High]"
    unfolding p2 burstThenPause_values(3) by simp
  have hz: "getDetectedHz (snd (detectAll burstThenPause newPollingRateDetector)) = 7"
    unfolding p3 by (rule burstThenPause_values(4))
  show ?thesis
    using l burstThenPause_values(1) burstThenPause_values(2) p1 [unfolded r]
      burstThenPause_values(3) cls hz
    by blast
qed

lemma cached_phase:
  "cachedPollingRate d = Some r \<Longrightarrow> detectAll ts d = (replicate (length ts) r, d)"
  by (induction ts) (simp_all add: detectPollingRate_def)

lemma classified_is_cached:
  "detectPollingRate now d = (r, d') \<Longrightarrow> r \<noteq> Unknown \<Longrightarrow> cachedPollingRate d' = Some r"
  by (auto simp: detectPollingRate_def Let_def split: option.splits if_splits)

text \<open>
  Claim C5. Once a call has returned a classification other than \<open>Unknown\<close>, every later
  call returns that same classification and leaves the detector unchanged, whatever the
  later clock readings are. \<open>reset\<close> puts the detector back into its initial state: no
  classification, estimated rate 0, no readings; the next call answers \<open>Unknown\<close>.
\<close>

theorem classification_stays_until_reset:
  "(detectPollingRate now d = (r, d') \<and> r \<noteq> Unknown \<longrightarrow>
      detectAll later d' = (replicate (length later) r, d'))
   \<and> resetDetector c = newPollingRateDetector
   \<and> cachedPollingRate (resetDetector c) = None
   \<and> getDetectedHz (resetDetector c) = 0
   \<and> eventTimestamps (resetDetector c) = []
   \<and> fst (detectPollingRate now' (resetDetector c)) = Unknown"
proof -
  have r: "resetDetector c = newPollingRateDetector"
    by (simp add: resetDetector_def newPollingRateDetector_def)
  have "fst (detectPollingRate now' newPollingRateDetector) = Unknown"
    by (simp add: detectPollingRate_def newPollingRateDetector_def SAMPLE_SIZE_def Let_def)
  with r show ?thesis
    using cached_phase classified_is_cached
    by (auto simp: newPollingRateDetector_def getDetectedHz_def)
qed

lemma tenth_slow: "detectPollingRate 80 nineSlow = (Standard, tenSlow)"
  by code_simp

theorem classification_stays_until_reset_witness:
  "detectPollingRate 80 nineSlow = (Standard, tenSlow) \<and> Standard \<noteq> Unknown
   \<and> detectAll [80 + 1 / 8, 80 + 2 / 8, 80 + 3 / 8] tenSlow = ([Standard, Standard, Standard], tenSlow)
   \<and> fst (detectPollingRate 81 (resetDetector tenSlow)) = Unknown
   \<and> getDetectedHz (resetDetector tenSlow) = 0"
proof -
  have p: "detectPollingRate 80 nineSlow = (Standard, tenSlow) \<and> Standard \<noteq> Unknown"
    by (simp add: tenth_slow)
  have l: "replicate (length [80 + 1 / 8, 80 + 2 / 8, 80 + 3 / 8 :: rat]) Standard =
             [Standard, Standard, Standard]"
    by (simp add: numeral_eq_Suc)
  show ?thesis
    using classification_stays_until_reset
            [of 80 nineSlow Standard tenSlow "[80 + 1 / 8, 80 + 2 / 8, 80 + 3 / 8]" tenSlow 81] p
    unfolding l by blast
qed

section \<open>Rounding error of the arithmetic\<close>

text \<open>The binary exponent is not too large, so rounding is off by a relative \<open>2^-53\<close> at most.\<close>

lemma pow2_powi: "pow2 k = 2 powi k"
  by (simp add: pow2_def power_int_def field_simps)

lemma pow2_diff: "pow2 (i - j) = pow2 i / pow2 j"
  by (simp add: pow2_powi power_int_diff)

lemma pow2_nat: "pow2 (int n) = 2 ^ n"
  by (simp add: pow2_def)

lemma ilog2_lower:
  assumes "q \<noteq> 0"
  shows "pow2 (ilog2 q) \<le> \<bar>q\<bar>"
proof -
  obtain a b where ab: "quotient_of \<bar>q\<bar> = (a, b)"
    by (cases "quotient_of \<bar>q\<bar>")
  have bpos: "0 < b"
    by (rule quotient_of_denom_pos [OF ab])
  have qeq: "\<bar>q\<bar> = of_int a / of_int b"
    by (rule quotient_of_div [OF ab])
  have "0 < \<bar>q\<bar>"
    using assms by simp
  with qeq bpos have apos: "0 < a"
    by (simp add: zero_less_divide_iff)
  let ?k = "bitlen a - bitlen b"
  show ?thesis
  proof (cases "pow2 ?k \<le> \<bar>q\<bar>")
    case True
    then show ?thesis
      by (simp add: ilog2_def ab Let_def)
  next
    case False
    have la: "1 \<le> bitlen a" using apos by (simp add: bitlen_alt_def)
    have lb: "0 \<le> bitlen b" by (rule bitlen_nonneg)
    have "(2::int) ^ nat (bitlen a - 1) \<le> a"
      using bitlen_bounds [OF apos] by simp
    then have "(of_int ((2::int) ^ nat (bitlen a - 1)) :: rat) \<le> of_int a"
      by (simp only: of_int_le_iff)
    then have alow: "pow2 (bitlen a - 1) \<le> of_int a"
      using la by (simp add: pow2_def)
    have "b < 2 ^ nat (bitlen b)"
      using bitlen_bounds [OF bpos] by simp
    then have "(of_int b :: rat) < of_int ((2::int) ^ nat (bitlen b))"
      by (simp only: of_int_less_iff)
    then have bup: "of_int b < pow2 (bitlen b)"
      using lb by (simp add: pow2_def)
    have bq: "(0::rat) < of_int b" using bpos by simp
    have p: "(0::rat) < pow2 (bitlen a - 1)" by (simp add: pow2_def)
    have "pow2 (?k - 1) = pow2 (bitlen a - 1) / pow2 (bitlen b)"
      using pow2_diff [of "bitlen a - 1" "bitlen b"] by (simp add: algebra_simps)
    also have "\<dots> \<le> pow2 (bitlen a - 1) / of_int b"
      using bup bq p by (simp add: frac_le)
    also have "\<dots> \<le> of_int a / of_int b"
      using alow bq by (simp add: divide_right_mono)
    finally have "pow2 (?k - 1) \<le> \<bar>q\<bar>"
      by (simp add: qeq)
    with False show ?thesis
      by (simp add: ilog2_def ab Let_def)
  qed
qed

lemma ilog2_upper:
  assumes "q \<noteq> 0"
  shows "\<bar>q\<bar> < pow2 (ilog2 q + 1)"
proof -
  obtain a b where ab: "quotient_of \<bar>q\<bar> = (a, b)"
    by (cases "quotient_of \<bar>q\<bar>")
  have bpos: "0 < b"
    by (rule quotient_of_denom_pos [OF ab])
  have qeq: "\<bar>q\<bar> = of_int a / of_int b"
    by (rule quotient_of_div [OF ab])
  have "0 < \<bar>q\<bar>"
    using assms by simp
  with qeq bpos have apos: "0 < a"
    by (simp add: zero_less_divide_iff)
  let ?k = "bitlen a - bitlen b"
  show ?thesis
  proof (cases "pow2 ?k \<le> \<bar>q\<bar>")
    case False
    then show ?thesis
      by (simp add: ilog2_def ab Let_def)
  next
    case True
    have la: "0 \<le> bitlen a" by (rule bitlen_nonneg)
    have lb: "1 \<le> bitlen b" using bpos by (simp add: bitlen_alt_def)
    have "a < 2 ^ nat (bitlen a)"
      using bitlen_bounds [OF apos] by simp
    then have "(of_int a :: rat) < of_int ((2::int) ^ nat (bitlen a))"
      by (simp only: of_int_less_iff)
    then have aup: "of_int a < pow2 (bitlen a)"
      using la by (simp add: pow2_def)
    have "(2::int) ^ nat (bitlen b - 1) \<le> b"
      using bitlen_bounds [OF bpos] by simp
    then have "(of_int ((2::int) ^ nat (bitlen b - 1)) :: rat) \<le> of_int b"
      by (simp only: of_int_le_iff)
    then have blow: "pow2 (bitlen b - 1) \<le> of_int b"
      using lb by (simp add: pow2_def)
    have bq: "(0::rat) < of_int b" using bpos by simp
    have p: "(0::rat) < pow2 (bitlen b - 1)" by (simp add: pow2_def)
    have pa: "(0::rat) < pow2 (bitlen a)" by (simp add: pow2_def)
    have "of_int a / of_int b < pow2 (bitlen a) / of_int b"
      using aup bq by (simp add: divide_strict_right_mono)
    also have "\<dots> \<le> pow2 (bitlen a) / pow2 (bitlen b - 1)"
      using blow p pa by (simp add: frac_le)
    also have "\<dots> = pow2 (?k + 1)"
      using pow2_diff [of "bitlen a" "bitlen b - 1"] by (simp add: algebra_simps)
    finally have "\<bar>q\<bar> < pow2 (?k + 1)"
      by (simp add: qeq)
    with True show ?thesis
      by (simp add: ilog2_def ab Let_def)
  qed
qed

text \<open>Two values as binary64 holds them: \<open>0.1\<close>, and the \<open>23 / 40\<close> of the collector below.\<close>

lemma fl_examples:
  "fl (1 / 10) = 3602879701896397 / 2 ^ 55"
  "fl (23 / 40) = 2589569785738035 / 2 ^ 52"
  "fl (fl (23 / 40) * 100) = 8092405580431359 / 2 ^ 47"
  by code_simp+

lemma roundHalfEven_error: "\<bar>of_int (roundHalfEven x) - x\<bar> \<le> 1 / 2"
proof -
  have "of_int \<lfloor>x\<rfloor> \<le> x" "x < of_int \<lfloor>x\<rfloor> + 1"
    by linarith+
  then show ?thesis
    by (auto simp: roundHalfEven_def Let_def abs_le_iff)
qed

lemma fl_error: "\<bar>fl q - q\<bar> \<le> \<bar>q\<bar> / 2 ^ 53"
proof (cases "q = 0")
  case True
  then show ?thesis by (simp add: fl_def)
next
  case False
  let ?u = "pow2 (ilog2 q - 52)"
  let ?m = "roundHalfEven (q / ?u)"
  have upos: "0 < ?u" by (simp add: pow2_def)
  have u: "?u = pow2 (ilog2 q) / 2 ^ 52"
    using pow2_diff [of "ilog2 q" 52] pow2_nat [of 52] by simp
  have ule: "?u \<le> \<bar>q\<bar> / 2 ^ 52"
    unfolding u using ilog2_lower [OF False] by (simp add: divide_right_mono)
  have "fl q - q = (of_int ?m - q / ?u) * ?u"
    using False upos by (simp add: fl_def Let_def field_simps)
  then have "\<bar>fl q - q\<bar> = \<bar>of_int ?m - q / ?u\<bar> * ?u"
    using upos by (simp add: abs_mult)
  also have "\<dots> \<le> (1 / 2) * ?u"
    using roundHalfEven_error [of "q / ?u"] upos by (intro mult_right_mono) simp_all
  also have "\<dots> \<le> (1 / 2) * (\<bar>q\<bar> / 2 ^ 52)"
    using ule by simp
  also have "\<dots> = \<bar>q\<bar> / 2 ^ 53"
    by simp
  finally show ?thesis .
qed

lemma floor_near: "\<bar>a - b\<bar> < 1 \<Longrightarrow> \<bar>\<lfloor>a\<rfloor> - \<lfloor>b :: rat\<rfloor>\<bar> \<le> 1"
proof -
  assume "\<bar>a - b\<bar> < 1"
  then have "a \<le> b + 1" "b \<le> a + 1"
    by (simp_all add: abs_less_iff)
  then have "\<lfloor>a\<rfloor> \<le> \<lfloor>b + 1\<rfloor>" "\<lfloor>b\<rfloor> \<le> \<lfloor>a + 1\<rfloor>"
    by (simp_all only: floor_mono)
  then show ?thesis
    by simp
qed

text \<open>
  With no more flushed than raw events the quotient lies between 0 and 1, each of the two
  roundings is off by a relative \<open>2^-53\<close> at most, and the stored percentage is within 1
  of the exactly rounded one.
\<close>

lemma reductionOf_near_exact:
  assumes "0 \<le> flushed" and "flushed \<le> raw" and "0 < raw"
  shows "\<bar>reductionOf raw flushed - round (100 * of_int (raw - flushed) / (of_int raw :: rat))\<bar> \<le> 1"
proof -
  define x :: rat where "x = of_int (raw - flushed) / of_int raw"
  define q where "q = fl x"
  define p where "p = fl (q * 100)"
  have x: "0 \<le> x" "x \<le> 1"
    using assms by (simp_all add: x_def)
  have e1: "\<bar>q - x\<bar> \<le> 1 / 2 ^ 53"
  proof -
    have "\<bar>q - x\<bar> \<le> \<bar>x\<bar> / 2 ^ 53"
      unfolding q_def by (rule fl_error)
    also have "\<dots> \<le> 1 / 2 ^ 53"
      using x by (simp add: divide_right_mono)
    finally show ?thesis .
  qed
  have "\<bar>q - x\<bar> \<le> 1"
    using e1 by simp
  then have q: "\<bar>q\<bar> \<le> 2"
    using x by linarith
  have e2: "\<bar>p - q * 100\<bar> \<le> 200 / 2 ^ 53"
  proof -
    have "\<bar>p - q * 100\<bar> \<le> \<bar>q * 100\<bar> / 2 ^ 53"
      unfolding p_def by (rule fl_error)
    also have "\<dots> \<le> 200 / 2 ^ 53"
      using q by (simp add: abs_mult divide_right_mono)
    finally show ?thesis .
  qed
  have "p - 100 * x = (p - q * 100) + 100 * (q - x)"
    by simp
  then have "\<bar>p - 100 * x\<bar> \<le> \<bar>p - q * 100\<bar> + \<bar>100 * (q - x)\<bar>"
    by (simp only: abs_triangle_ineq)
  moreover have "\<bar>100 * (q - x)\<bar> = 100 * \<bar>q - x\<bar>"
    by (simp only: abs_mult)
  ultimately have "\<bar>p - 100 * x\<bar> \<le> \<bar>p - q * 100\<bar> + 100 * \<bar>q - x\<bar>"
    by (simp only:)
  also have "\<dots> \<le> 200 / 2 ^ 53 + 100 * (1 / 2 ^ 53)"
    using e1 e2 by (intro add_mono mult_left_mono) simp_all
  also have "\<dots> < 1"
    by simp
  finally have "\<bar>(p + 1 / 2) - (100 * x + 1 / 2)\<bar> < 1"
    by simp
  then have "\<bar>\<lfloor>p + 1 / 2\<rfloor> - \<lfloor>100 * x + 1 / 2\<rfloor>\<bar> \<le> 1"
    by (rule floor_near)
  moreover have "reductionOf raw flushed = \<lfloor>p + 1 / 2\<rfloor>"
    using assms(3)
    by (simp add: reductionOf_def js_round_def js_mul_def js_div_def p_def q_def x_def)
  moreover have "round (100 * of_int (raw - flushed) / (of_int raw :: rat)) = \<lfloor>100 * x + 1 / 2\<rfloor>"
    by (simp add: round_def x_def)
  ultimately show ?thesis
    by simp
qed

section \<open>Properties of the MetricsCollector\<close>

lemma collect_snoc: "collect (ops @ [x]) t0 = applyMetricsOp (collect ops t0) x"
  by (simp add: collect_def)

lemma sinceReset_snoc:
  "sinceReset (ops @ [x]) = (case x of Reset t \<Rightarrow> [] | _ \<Rightarrow> sinceReset ops @ [x])"
  by (cases x) (simp_all add: sinceReset_def)

lemma counts_applyMetricsOp:
  "rawEventCount (metrics (applyMetricsOp c x)) =
     (case x of RecordRaw \<Rightarrow> rawEventCount (metrics c) + 1 | Reset t \<Rightarrow> 0
      | _ \<Rightarrow> rawEventCount (metrics c))"
  "flushedEventCount (metrics (applyMetricsOp c x)) =
     (case x of RecordFlushed \<Rightarrow> flushedEventCount (metrics c) + 1 | Reset t \<Rightarrow> 0
      | _ \<Rightarrow> flushedEventCount (metrics c))"
  by (cases x;
      simp add: recordRawEvent_def recordFlushedEvent_def updateReductionPercentage_def
        recordProcessingTime_def updateAverageProcessingTime_def updateFPS_def
        updatePollingRate_def resetMetrics_def freshMetrics_def Let_def)+

lemma collect_counts:
  "rawEventCount (metrics (collect ops t0)) = timesRecorded RecordRaw ops
   \<and> flushedEventCount (metrics (collect ops t0)) = timesRecorded RecordFlushed ops"
proof (induction ops rule: rev_induct)
  case Nil
  show ?case
    by (simp add: collect_def newMetricsCollector_def freshMetrics_def timesRecorded_def
        sinceReset_def)
next
  case (snoc x ops)
  then show ?case
    by (simp add: collect_snoc counts_applyMetricsOp timesRecorded_def sinceReset_snoc
          del: applyMetricsOp.simps split: metricsOp.splits)
qed

lemma percentage_applyMetricsOp:
  assumes "reductionPercentage (metrics c) =
             reductionOf (rawEventCount (metrics c)) (flushedEventCount (metrics c))"
  shows "reductionPercentage (metrics (applyMetricsOp c x)) =
           reductionOf (rawEventCount (metrics (applyMetricsOp c x)))
                       (flushedEventCount (metrics (applyMetricsOp c x)))"
  using assms
  by (cases x;
      simp add: recordRawEvent_def recordFlushedEvent_def updateReductionPercentage_def
        recordProcessingTime_def updateAverageProcessingTime_def updateFPS_def
        updatePollingRate_def resetMetrics_def freshMetrics_def Let_def reductionOf_def)

lemma collect_percentage:
  "reductionPercentage (metrics (collect ops t0)) =
     reductionOf (rawEventCount (metrics (collect ops t0)))
                 (flushedEventCount (metrics (collect ops t0)))"
proof (induction ops rule: rev_induct)
  case Nil
  show ?case
    by (simp add: collect_def newMetricsCollector_def freshMetrics_def reductionOf_def)
next
  case (snoc x ops)
  then show ?case
    by (simp add: collect_snoc percentage_applyMetricsOp del: applyMetricsOp.simps)
qed

lemma getMetrics_fields:
  "rawEventCount (getMetrics now c) = rawEventCount (metrics c)"
  "flushedEventCount (getMetrics now c) = flushedEventCount (metrics c)"
  "reductionPercentage (getMetrics now c) = reductionPercentage (metrics c)"
  by (simp_all add: getMetrics_def)

lemma times_forty:
  "timesRecorded RecordRaw fortyRawSeventeenFlushed = 40"
  "timesRecorded RecordFlushed fortyRawSeventeenFlushed = 17"
  by code_simp+

lemma times_hundred:
  "timesRecorded RecordRaw hundredRawTenFlushed = 100"
  "timesRecorded RecordFlushed hundredRawTenFlushed = 10"
  by code_simp+

lemma reductionOf_values:
  "reductionOf 40 17 = 57"
  "reductionOf 100 10 = 90"
  by code_simp+

lemma exact_rounding_forty: "round (100 * of_int (40 - 17) / (of_int 40 :: rat)) = 58"
  by code_simp

lemma reported_counts:
  "rawEventCount (getMetrics now (collect ops t0)) = timesRecorded RecordRaw ops"
  "flushedEventCount (getMetrics now (collect ops t0)) = timesRecorded RecordFlushed ops"
  by (simp_all add: getMetrics_fields collect_counts)

lemma reported_percentage:
  "reductionPercentage (getMetrics now (collect ops t0)) =
     reductionOf (timesRecorded RecordRaw ops) (timesRecorded RecordFlushed ops)"
  by (simp add: getMetrics_fields collect_percentage collect_counts)

text \<open>
  Claim C6, as amended. After every sequence of operations the reported
  \<open>reductionPercentage\<close> is 0 when \<open>rawEventCount\<close> is 0 and otherwise
  \<^verbatim>\<open>Math.round(((rawEventCount - flushedEventCount) / rawEventCount) * 100)\<close>, the
  quotient and the product each rounded to binary64. While no more flushed than raw events
  are counted, it is within 1 of \<open>round (100 * (rawEventCount - flushedEventCount) /
  rawEventCount)\<close>.
\<close>

theorem reduction_percentage_reported:
  "reductionPercentage (getMetrics now (collect ops t0)) =
     (if rawEventCount (getMetrics now (collect ops t0)) = 0 then 0
      else js_round
             (js_mul
                (js_div
                   (of_int (rawEventCount (getMetrics now (collect ops t0))
                            - flushedEventCount (getMetrics now (collect ops t0))))
                   (of_int (rawEventCount (getMetrics now (collect ops t0)))))
                100))
   \<and> (0 < rawEventCount (getMetrics now (collect ops t0))
        \<and> flushedEventCount (getMetrics now (collect ops t0))
            \<le> rawEventCount (getMetrics now (collect ops t0)) \<longrightarrow>
        \<bar>reductionPercentage (getMetrics now (collect ops t0))
          - round (100 * of_int (rawEventCount (getMetrics now (collect ops t0))
                                 - flushedEventCount (getMetrics now (collect ops t0)))
                   / (of_int (rawEventCount (getMetrics now (collect ops t0))) :: rat))\<bar> \<le> 1)"
proof -
  have "0 \<le> timesRecorded RecordFlushed ops"
    by (simp add: timesRecorded_def)
  then show ?thesis
    using reductionOf_near_exact [of "timesRecorded RecordFlushed ops" "timesRecorded RecordRaw ops"]
    by (simp add: reported_percentage reported_counts) (simp add: reductionOf_def)
qed

theorem reduction_percentage_reported_witness:
  "rawEventCount (getMetrics 1 (collect hundredRawTenFlushed 0)) = 100
   \<and> flushedEventCount (getMetrics 1 (collect hundredRawTenFlushed 0)) = 10
   \<and> reductionPercentage (getMetrics 1 (collect hundredRawTenFlushed 0)) = 90"
  using reduction_percentage_reported [of 1 hundredRawTenFlushed 0]
    reductionOf_values(2) [unfolded reductionOf_def]
  by (simp add: reported_counts times_hundred)

text \<open>
  The two roundings can carry the product below a half that the exact value reaches:
  after 40 raw and 17 flushed events, \<open>23 / 40\<close> is rounded to a binary64 value whose
  product with 100 rounds to \<open>57.49999999999999\<close>, and the collector reports 57, whereas
  \<open>100 * 23 / 40 = 57.5\<close> rounds to 58.
\<close>

theorem reduction_percentage_counterexample:
  "rawEventCount (getMetrics 1 (collect fortyRawSeventeenFlushed 0)) = 40
   \<and> flushedEventCount (getMetrics 1 (collect fortyRawSeventeenFlushed 0)) = 17
   \<and> reductionPercentage (getMetrics 1 (collect fortyRawSeventeenFlushed 0)) = 57
   \<and> round (100 * of_int (40 - 17) / (of_int 40 :: rat)) = 58
   \<and> reductionPercentage (getMetrics 1 (collect fortyRawSeventeenFlushed 0))
       \<noteq> round (100 * of_int (40 - 17) / (of_int 40 :: rat))"
  by (simp only: reported_percentage reported_counts times_forty reductionOf_values
        exact_rounding_forty simp_thms)

text \<open>
  Claim C7, as amended. The collector keeps two independent counters: after every sequence
  of operations \<open>rawEventCount\<close> and \<open>flushedEventCount\<close> are the numbers of raw and of
  flushed events recorded since the last reset, so \<open>flushedEventCount \<le> rawEventCount\<close>
  holds exactly when no more flushed than raw events were recorded since then.
  \<open>recordRawEvent\<close> keeps the inequality, \<open>reset\<close> establishes it, a snapshot read changes
  nothing, and \<open>recordFlushedEvent\<close> keeps it exactly when the raw count was strictly
  larger before.
\<close>

theorem counts_follow_recordings:
  "rawEventCount (getMetrics now (collect ops t0)) = timesRecorded RecordRaw ops
   \<and> flushedEventCount (getMetrics now (collect ops t0)) = timesRecorded RecordFlushed ops
   \<and> (flushedEventCount (getMetrics now (collect ops t0))
        \<le> rawEventCount (getMetrics now (collect ops t0)))
       = (timesRecorded RecordFlushed ops \<le> timesRecorded RecordRaw ops)
   \<and> (flushedEventCount (metrics c) \<le> rawEventCount (metrics c) \<longrightarrow>
        flushedEventCount (metrics (recordRawEvent c)) \<le> rawEventCount (metrics (recordRawEvent c)))
   \<and> flushedEventCount (metrics (resetMetrics now c)) \<le> rawEventCount (metrics (resetMetrics now c))
   \<and> (flushedEventCount (metrics (recordFlushedEvent c))
        \<le> rawEventCount (metrics (recordFlushedEvent c)))
       = (flushedEventCount (metrics c) < rawEventCount (metrics c))"
proof -
  have raw: "rawEventCount (metrics (recordRawEvent c)) = rawEventCount (metrics c) + 1"
    "flushedEventCount (metrics (recordRawEvent c)) = flushedEventCount (metrics c)"
    using counts_applyMetricsOp [of c RecordRaw] by simp_all
  have flushed: "rawEventCount (metrics (recordFlushedEvent c)) = rawEventCount (metrics c)"
    "flushedEventCount (metrics (recordFlushedEvent c)) = flushedEventCount (metrics c) + 1"
    using counts_applyMetricsOp [of c RecordFlushed] by simp_all
  have reset: "rawEventCount (metrics (resetMetrics now c)) = 0"
    "flushedEventCount (metrics (resetMetrics now c)) = 0"
    using counts_applyMetricsOp [of c "Reset now"] by simp_all
  show ?thesis
    by (simp add: reported_counts raw flushed reset) linarith
qed

theorem counts_follow_recordings_witness:
  "rawEventCount (getMetrics 1 (collect [RecordRaw, RecordFlushed, Reset 2, RecordRaw] 0)) = 1
   \<and> flushedEventCount (getMetrics 1 (collect [RecordRaw, RecordFlushed, Reset 2, RecordRaw] 0)) = 0
   \<and> flushedEventCount (metrics (recordRawEvent (newMetricsCollector 0)))
       \<le> rawEventCount (metrics (recordRawEvent (newMetricsCollector 0)))"
proof -
  have t: "timesRecorded RecordRaw [RecordRaw, RecordFlushed, Reset 2, RecordRaw] = 1"
    "timesRecorded RecordFlushed [RecordRaw, RecordFlushed, Reset 2, RecordRaw] = 0"
    by (simp_all add: timesRecorded_def sinceReset_def)
  have z: "flushedEventCount (metrics (newMetricsCollector 0))
           \<le> rawEventCount (metrics (newMetricsCollector 0))"
    by (simp add: newMetricsCollector_def freshMetrics_def)
  show ?thesis
    using counts_follow_recordings
            [of 1 "[RecordRaw, RecordFlushed, Reset 2, RecordRaw]" 0 "newMetricsCollector 0"] t z
    by simp
qed

text \<open>
  Nothing stops a flushed event from being recorded first, as the test
  \<^verbatim>\<open>should record flushed events\<close> does: the counts are then 1 flushed and 0 raw.
\<close>

theorem flushed_can_exceed_raw:
  "\<not> flushedEventCount (getMetrics 1 (collect [RecordFlushed] 0))
      \<le> rawEventCount (getMetrics 1 (collect [RecordFlushed] 0))"
  by (simp add: reported_counts timesRecorded_def sinceReset_def)

section \<open>Properties of the YieldScheduler\<close>

lemma processWithYield_cases:
  "processWithYield env w p =
     ((if isSchedulerSupported env
       then (if scheduler env = SchedulerYield YieldResolves then [NativeYield None]
             else [NativeYield None, TimerYield])
       else [TimerYield]) @ [Work],
      if w then Rejected else Fulfilled)"
  by (cases "scheduler env"; cases "windowDefined env")
     (auto simp: processWithYield_def isSchedulerSupported_def yieldToScheduler_def
        fallbackYield_def split: yieldImpl.splits)

text \<open>
  Claim C8. Whatever the host offers, \<open>processWithYield\<close> ends rejected only when the work
  callback itself throws, never because of the yield. The work callback is called exactly
  once and last. Where the native \<^verbatim>\<open>yield\<close> is absent the zero-delay timer is used
  instead; where calling it throws or its promise is rejected, the failure is caught and
  the timer is used after it; where it succeeds, it is the only yield.
\<close>

theorem yield_failure_stays_inside:
  "snd (processWithYield env False p) = Fulfilled
   \<and> snd (processWithYield env w p) = (if w then Rejected else Fulfilled)
   \<and> length (filter (\<lambda>a. a = Work) (fst (processWithYield env w p))) = 1
   \<and> last (fst (processWithYield env w p)) = Work
   \<and> (\<not> isSchedulerSupported env \<longrightarrow>
        fst (processWithYield env w p) = [TimerYield, Work])
   \<and> (isSchedulerSupported env \<and> scheduler env \<noteq> SchedulerYield YieldResolves \<longrightarrow>
        fst (processWithYield env w p) = [NativeYield None, TimerYield, Work])
   \<and> (isSchedulerSupported env \<and> scheduler env = SchedulerYield YieldResolves \<longrightarrow>
        fst (processWithYield env w p) = [NativeYield None, Work])"
  by (simp add: processWithYield_cases)

theorem yield_failure_stays_inside_witness:
  "isSchedulerSupported throwingHost \<and> scheduler throwingHost \<noteq> SchedulerYield YieldResolves
   \<and> processWithYield throwingHost False UserVisible =
       ([NativeYield None, TimerYield, Work], Fulfilled)
   \<and> \<not> isSchedulerSupported \<lparr>windowDefined = True, scheduler = NoScheduler\<rparr>
   \<and> processWithYield \<lparr>windowDefined = True, scheduler = NoScheduler\<rparr> False UserVisible =
       ([TimerYield, Work], Fulfilled)"
proof -
  have s: "isSchedulerSupported throwingHost" "scheduler throwingHost \<noteq> SchedulerYield YieldResolves"
    "\<not> isSchedulerSupported \<lparr>windowDefined = True, scheduler = NoScheduler\<rparr>"
    by (simp_all add: isSchedulerSupported_def throwingHost_def)
  show ?thesis
    using yield_failure_stays_inside [of throwingHost UserVisible False]
      yield_failure_stays_inside
        [of "\<lparr>windowDefined = True, scheduler = NoScheduler\<rparr>" UserVisible False] s
    by (simp add: prod_eq_iff)
qed

text \<open>
  Claim C9 fails on the code. With a native \<^verbatim>\<open>yield\<close> available and the priority
  \<^verbatim>\<open>'background'\<close>, the native primitive is called with no argument at all, and the run
  is the same as with \<^verbatim>\<open>'user-visible'\<close>: the priority is handed down to
  \<open>yieldToScheduler\<close> and dropped there.
\<close>

theorem native_yield_gets_no_priority:
  "fst (processWithYield nativeHost False Background) = [NativeYield None, Work]
   \<and> processWithYield nativeHost False Background = processWithYield nativeHost False UserVisible"
  by (simp add: processWithYield_def isSchedulerSupported_def yieldToScheduler_def nativeHost_def)

end
